theory Spec2Isabelle
  imports Main "HOL-Library.Multiset" "HOL-Library.Option_ord"
begin

section \<open>Data model\<close>

text \<open>
  The program (\<^verbatim>\<open>analyze.py\<close>) reads CSV snapshots of repository traffic with pandas
  and builds two results: the aggregated views/clones series
  (\<^verbatim>\<open>analyse_view_clones_ts_fragments\<close>) and the top referrers table
  (\<^verbatim>\<open>analyse_referrer_snapshots\<close>).

  Every \<^verbatim>\<open>raise\<close> and \<^verbatim>\<open>sys.exit\<close> that the modelled statements can reach is a
  value of the type below.
\<close>

datatype error =
    SystemExit int
  | ValueError
  | KeyError string

text \<open>
  A point in time (a \<^verbatim>\<open>pd.Timestamp\<close> or a \<^verbatim>\<open>datetime\<close>, always in UTC) is an
  integer; only equality and order of timestamps are used by the program.
\<close>

type_synonym timestamp = int

text \<open>
  A views/clones data frame as \<^verbatim>\<open>pd.read_csv(p, index_col=["time_iso8601"], ...)\<close>
  returns it: the column labels and, for each row, the index value (the time) and
  the cells of the row by column label. A cell that holds no number (pandas'
  \<^verbatim>\<open>NaN\<close>) is \<open>None\<close>. Counters are Python integers, hence \<open>int\<close>.
\<close>

record frame =
  columns :: "string list"
  rows :: "(timestamp \<times> (string \<rightharpoonup> int)) list"

text \<open>A frame is well formed when every row only has cells in the frame's columns.\<close>

definition wf_frame :: "frame \<Rightarrow> bool" where
  "wf_frame df = list_all (\<lambda>r. dom (snd r) \<subseteq> set (columns df)) (rows df)"

section \<open>Views and clones: loading the fragments\<close>

text \<open>
  Lines 351 to 367. The loop over the discovered files keeps the set
  \<^verbatim>\<open>column_names_seen\<close> and the list \<^verbatim>\<open>dfs\<close>. The argument list holds the frames
  that \<^verbatim>\<open>pd.read_csv\<close> returns for the paths, in the order of \<^verbatim>\<open>glob.glob\<close>.
  \<^verbatim>\<open>if column_names_seen and set(df.columns) != column_names_seen: sys.exit(1)\<close>:
  an empty set is false in Python, so the comparison is skipped while no column
  has been seen.
\<close>

fun load_fragments :: "string set \<Rightarrow> frame list \<Rightarrow> frame list \<Rightarrow> error + frame list" where
  "load_fragments column_names_seen dfs [] = Inr dfs"
| "load_fragments column_names_seen dfs (df # ps) =
     (if column_names_seen \<noteq> {} \<and> set (columns df) \<noteq> column_names_seen
      then Inl (SystemExit 1)
      else load_fragments (column_names_seen \<union> set (columns df)) (dfs @ [df]) ps)"

section \<open>Views and clones: the aggregate\<close>

text \<open>
  \<^verbatim>\<open>pd.concat(dfs)\<close> raises \<^verbatim>\<open>ValueError\<close> on an empty list. Otherwise the rows
  follow each other in the order of the list, and the columns are the union of
  the frames' columns in the order of first appearance; a cell of a column that a
  frame does not have is \<^verbatim>\<open>NaN\<close>, which the row maps already say.
\<close>

definition union_columns :: "string list list \<Rightarrow> string list" where
  "union_columns css = rev (remdups (rev (concat css)))"

definition pd_concat :: "frame list \<Rightarrow> error + frame" where
  "pd_concat dfs =
     (if dfs = [] then Inl ValueError
      else Inr \<lparr>columns = union_columns (map columns dfs),
                rows = concat (map rows dfs)\<rparr>)"

text \<open>
  \<^verbatim>\<open>dfa.sort_index(inplace=True)\<close>: the rows in ascending order of the index. Rows
  with the same index value keep their order here; pandas promises no order among
  them, and the maximum over a group does not depend on it.
\<close>

definition sort_index :: "frame \<Rightarrow> frame" where
  "sort_index dfa = dfa\<lparr>rows := sort_key fst (rows dfa)\<rparr>"

text \<open>
  The maximum that pandas takes over a group of cells skips \<^verbatim>\<open>NaN\<close>; it is
  \<^verbatim>\<open>NaN\<close> only when the group has no number at all.
\<close>

fun nanmax :: "int option \<Rightarrow> int option \<Rightarrow> int option" where
  "nanmax None y = y"
| "nanmax (Some a) None = Some a"
| "nanmax (Some a) (Some b) = Some (max a b)"

primrec nanmax_list :: "int option list \<Rightarrow> int option" where
  "nanmax_list [] = None"
| "nanmax_list (x # xs) = nanmax x (nanmax_list xs)"

text \<open>
  \<^verbatim>\<open>dfa.groupby(dfa.index).max()\<close>: one row for each distinct index value, in
  ascending order of the index; the cell of a column is the maximum of that column
  over the rows of the group.
\<close>

definition group_rows :: "timestamp \<Rightarrow> (timestamp \<times> (string \<rightharpoonup> int)) list \<Rightarrow> (timestamp \<times> (string \<rightharpoonup> int)) list" where
  "group_rows t rs = filter (\<lambda>r. fst r = t) rs"

definition group_max :: "string list \<Rightarrow> (timestamp \<times> (string \<rightharpoonup> int)) list \<Rightarrow> (string \<rightharpoonup> int)" where
  "group_max cols grp =
     (\<lambda>c. if c \<in> set cols then nanmax_list (map (\<lambda>r. snd r c) grp) else None)"

definition groupby_index_max :: "frame \<Rightarrow> frame" where
  "groupby_index_max dfa =
     \<lparr>columns = columns dfa,
      rows = map (\<lambda>t. (t, group_max (columns dfa) (group_rows t (rows dfa))))
                 (sort (remdups (map fst (rows dfa))))\<rparr>"

text \<open>
  Lines 375 to 394: \<^verbatim>\<open>dfa = pd.concat(dfs)\<close>, \<^verbatim>\<open>dfa.sort_index(inplace=True)\<close>,
  \<^verbatim>\<open>df_agg = dfa.groupby(dfa.index).max()\<close>.
\<close>

definition reconcile :: "frame list \<Rightarrow> error + frame" where
  "reconcile dfs =
     (case pd_concat dfs of
        Inl e \<Rightarrow> Inl e
      | Inr dfa \<Rightarrow> Inr (groupby_index_max (sort_index dfa)))"

text \<open>
  \<^verbatim>\<open>df.drop(columns=labels)\<close> raises \<^verbatim>\<open>KeyError\<close> when a label is not a column of
  the frame.
\<close>

definition drop_columns :: "string list \<Rightarrow> frame \<Rightarrow> error + frame" where
  "drop_columns labels df =
     (case filter (\<lambda>l. l \<notin> set (columns df)) labels of
        l # _ \<Rightarrow> Inl (KeyError l)
      | [] \<Rightarrow> Inr \<lparr>columns = filter (\<lambda>c. c \<notin> set labels) (columns df),
                    rows = map (\<lambda>r. (fst r, (\<lambda>c. if c \<in> set labels then None else snd r c))) (rows df)\<rparr>)"

text \<open>
  The part of \<^verbatim>\<open>analyse_view_clones_ts_fragments\<close> that computes data. The state
  that the function holds at line 416 is returned: the list \<^verbatim>\<open>dfs\<close> of the loaded
  fragments, \<^verbatim>\<open>df_agg\<close>, \<^verbatim>\<open>df_agg_views\<close> and \<^verbatim>\<open>df_agg_clones\<close>.
\<close>

record ts_result =
  ts_dfs :: "frame list"
  df_agg :: frame
  df_agg_views :: frame
  df_agg_clones :: frame

definition analyse_view_clones_ts_fragments :: "frame list \<Rightarrow> error + ts_result" where
  "analyse_view_clones_ts_fragments csvs =
     (case load_fragments {} [] csvs of
        Inl e \<Rightarrow> Inl e
      | Inr dfs \<Rightarrow>
         (case reconcile dfs of
            Inl e \<Rightarrow> Inl e
          | Inr agg \<Rightarrow>
             (case drop_columns [''clones_unique'', ''clones_total''] agg of
                Inl e \<Rightarrow> Inl e
              | Inr views \<Rightarrow>
                 (case drop_columns [''views_unique'', ''views_total''] agg of
                    Inl e \<Rightarrow> Inl e
                  | Inr clones \<Rightarrow>
                     Inr \<lparr>ts_dfs = dfs, df_agg = agg,
                          df_agg_views = views, df_agg_clones = clones\<rparr>))))"

subsection \<open>Notions used to state the properties of the aggregate\<close>

text \<open>
  The numbers that the fragments hold for column \<open>c\<close> in rows whose time is exactly
  \<open>t\<close>.
\<close>

definition values_at :: "frame list \<Rightarrow> timestamp \<Rightarrow> string \<Rightarrow> int set" where
  "values_at dfs t c = {v. \<exists>df \<in> set dfs. \<exists>m. (t, m) \<in> set (rows df) \<and> m c = Some v}"

text \<open>The numbers among a list of cells.\<close>

definition present :: "int option list \<Rightarrow> int set" where
  "present xs = {v. Some v \<in> set xs}"

text \<open>
  The two overlapping fragments of the comment at lines 386 to 393: the sample of
  Dec 7 is 73 in the fragment fetched first and 18 at the boundary of the later
  one. A day is written as the number \<open>yyyymmdd\<close>.
\<close>

definition fragment1 :: frame where
  "fragment1 = \<lparr>columns = [''clones_total''],
                 rows = [(20201201, [''clones_total'' \<mapsto> 10]),
                         (20201207, [''clones_total'' \<mapsto> 73])]\<rparr>"

definition fragment2 :: frame where
  "fragment2 = \<lparr>columns = [''clones_total''],
                 rows = [(20201207, [''clones_total'' \<mapsto> 18]),
                         (20201210, [''clones_total'' \<mapsto> 25])]\<rparr>"

section \<open>Referrers: file names and snapshot times\<close>

text \<open>
  Line 153: \<^verbatim>\<open>os.path.basename(p).split("_top_referrers_snapshot.csv")[0]\<close>. The
  base name is what follows the last slash of the path; the first element of the
  split is what precedes the first occurrence of the separator (the whole string
  when there is none). Strings are lists of 8-bit characters.
\<close>

definition basename :: "string \<Rightarrow> string" where
  "basename p = rev (takeWhile (\<lambda>c. c \<noteq> CHR ''/'') (rev p))"

fun split_first :: "string \<Rightarrow> string \<Rightarrow> string" where
  "split_first sep [] = []"
| "split_first sep (c # cs) =
     (if take (length sep) (c # cs) = sep then [] else c # split_first sep cs)"

definition pprefix_of :: "string \<Rightarrow> string" where
  "pprefix_of p = split_first ''_top_referrers_snapshot.csv'' (basename p)"

text \<open>
  Lines 154 to 156: \<^verbatim>\<open>datetime.strptime(pprefix, "%Y-%m-%d_%H%M%S")\<close>, a function
  of Python's standard library. It turns the format into the regular expression
  \<^verbatim>\<open>(?P<Y>\d\d\d\d)-(?P<m>1[0-2]|0[1-9]|[1-9])-(?P<d>3[0-1]|[1-2]\d|0[1-9]|[1-9]| [1-9])_\<close>
  \<^verbatim>\<open>(?P<H>2[0-3]|[0-1]\d|\d)(?P<M>[0-5]\d|\d)(?P<S>6[0-1]|[0-5]\d|\d)\<close>,
  matches it at the start of the string (alternatives in the order written, with
  backtracking), raises \<^verbatim>\<open>ValueError\<close> when there is no match or when the first
  match leaves part of the string unconverted, and raises \<^verbatim>\<open>ValueError\<close> again
  when the fields are not a date and time of the calendar.

  Each group below returns its possible matches in the order in which the
  backtracking matcher tries them, as pairs of the number read and the rest of the
  string. \<open>digit_between lo hi\<close> is the character class \<^verbatim>\<open>[lo-hi]\<close> of digits
  (the digit \<open>k\<close> has the code \<open>48 + k\<close>), and \<open>digit_between k k\<close> is the
  single digit \<open>k\<close>.
\<close>

definition digit_between :: "nat \<Rightarrow> nat \<Rightarrow> char \<Rightarrow> bool" where
  "digit_between lo hi c = (48 + lo \<le> of_char c \<and> of_char c \<le> (48 + hi :: nat))"

definition digit_val :: "char \<Rightarrow> int" where
  "digit_val c = int (of_char c) - 48"

fun two_chars :: "(char \<Rightarrow> bool) \<Rightarrow> (char \<Rightarrow> bool) \<Rightarrow> string \<Rightarrow> (int \<times> string) list" where
  "two_chars p q (a # b # s) =
     (if p a \<and> q b then [(10 * digit_val a + digit_val b, s)] else [])"
| "two_chars p q s = []"

fun one_char :: "(char \<Rightarrow> bool) \<Rightarrow> string \<Rightarrow> (int \<times> string) list" where
  "one_char p (a # s) = (if p a then [(digit_val a, s)] else [])"
| "one_char p [] = []"

fun literal :: "char \<Rightarrow> string \<Rightarrow> string list" where
  "literal c (a # s) = (if a = c then [s] else [])"
| "literal c [] = []"

fun re_Y :: "string \<Rightarrow> (int \<times> string) list" where
  "re_Y (a # b # c # d # s) =
     (if digit_between 0 9 a \<and> digit_between 0 9 b \<and> digit_between 0 9 c \<and> digit_between 0 9 d
      then [(1000 * digit_val a + 100 * digit_val b + 10 * digit_val c + digit_val d, s)]
      else [])"
| "re_Y s = []"

definition re_m :: "string \<Rightarrow> (int \<times> string) list" where
  "re_m s = two_chars (digit_between 1 1) (digit_between 0 2) s
          @ two_chars (digit_between 0 0) (digit_between 1 9) s
          @ one_char (digit_between 1 9) s"

definition re_d :: "string \<Rightarrow> (int \<times> string) list" where
  "re_d s = two_chars (digit_between 3 3) (digit_between 0 1) s
          @ two_chars (digit_between 1 2) (digit_between 0 9) s
          @ two_chars (digit_between 0 0) (digit_between 1 9) s
          @ one_char (digit_between 1 9) s
          @ (case s of a # s' \<Rightarrow> (if a = CHR '' '' then one_char (digit_between 1 9) s' else [])
             | [] \<Rightarrow> [])"

definition re_H :: "string \<Rightarrow> (int \<times> string) list" where
  "re_H s = two_chars (digit_between 2 2) (digit_between 0 3) s
          @ two_chars (digit_between 0 1) (digit_between 0 9) s
          @ one_char (digit_between 0 9) s"

definition re_M :: "string \<Rightarrow> (int \<times> string) list" where
  "re_M s = two_chars (digit_between 0 5) (digit_between 0 9) s
          @ one_char (digit_between 0 9) s"

definition re_S :: "string \<Rightarrow> (int \<times> string) list" where
  "re_S s = two_chars (digit_between 6 6) (digit_between 0 1) s
          @ two_chars (digit_between 0 5) (digit_between 0 9) s
          @ one_char (digit_between 0 9) s"

record datetime =
  year :: int
  month :: int
  day :: int
  hour :: int
  minute :: int
  second :: int

definition regex_matches :: "string \<Rightarrow> (datetime \<times> string) list" where
  "regex_matches s =
     concat (map (\<lambda>(Y, s1). concat (map (\<lambda>s2.
     concat (map (\<lambda>(m, s3). concat (map (\<lambda>s4.
     concat (map (\<lambda>(d, s5). concat (map (\<lambda>s6.
     concat (map (\<lambda>(H, s7).
     concat (map (\<lambda>(M, s8).
     map (\<lambda>(S, s9). (\<lparr>year = Y, month = m, day = d, hour = H, minute = M, second = S\<rparr>, s9))
       (re_S s8)) (re_M s7))) (re_H s6)))
       (literal (CHR ''_'') s5))) (re_d s4)))
       (literal (CHR ''-'') s3))) (re_m s2)))
       (literal (CHR ''-'') s1))) (re_Y s))"

definition is_leap :: "int \<Rightarrow> bool" where
  "is_leap y = (y mod 4 = 0 \<and> (y mod 100 \<noteq> 0 \<or> y mod 400 = 0))"

definition days_in_month :: "int \<Rightarrow> int \<Rightarrow> int" where
  "days_in_month y m =
     (if m = 2 then (if is_leap y then 29 else 28)
      else if m = 4 \<or> m = 6 \<or> m = 9 \<or> m = 11 then 30 else 31)"

definition valid_datetime :: "datetime \<Rightarrow> bool" where
  "valid_datetime dt =
     (1 \<le> year dt \<and> year dt \<le> 9999 \<and> 1 \<le> month dt \<and> month dt \<le> 12 \<and>
      1 \<le> day dt \<and> day dt \<le> days_in_month (year dt) (month dt) \<and>
      0 \<le> hour dt \<and> hour dt \<le> 23 \<and> 0 \<le> minute dt \<and> minute dt \<le> 59 \<and>
      0 \<le> second dt \<and> second dt \<le> 59)"

definition strptime :: "string \<Rightarrow> error + datetime" where
  "strptime s =
     (case regex_matches s of
        [] \<Rightarrow> Inl ValueError
      | (dt, rest) # _ \<Rightarrow>
          if rest \<noteq> [] then Inl ValueError
          else if valid_datetime dt then Inr dt
          else Inl ValueError)"

text \<open>
  \<^verbatim>\<open>pytz.timezone("UTC").localize(...)\<close> reads the fields as UTC. The instant is
  written as the number whose decimal digits are \<open>yyyymmddHHMMSS\<close>, which orders
  the instants of UTC as time does.
\<close>

definition utc_localize :: "datetime \<Rightarrow> timestamp" where
  "utc_localize dt =
     ((((year dt * 100 + month dt) * 100 + day dt) * 100 + hour dt) * 100 + minute dt) * 100
       + second dt"

section \<open>Referrers: loading the snapshots\<close>

text \<open>
  A row of a referrer snapshot: the name of the referrer and its counters, typed
  as the GitHub traffic API delivers them. The cell of the column \<^verbatim>\<open>time\<close> is
  \<open>None\<close> as long as the frame has no such column.
\<close>

record snapshot_row =
  referrer :: string
  count :: int
  count_unique :: int
  time :: "timestamp option"

text \<open>
  A discovered file: its path, and the column labels and rows that
  \<^verbatim>\<open>pd.read_csv(p)\<close> returns for it.
\<close>

record csv_file =
  path :: string
  header :: "string list"
  body :: "snapshot_row list"

text \<open>
  A loaded snapshot: a data frame with \<^verbatim>\<open>df.attrs["snapshot_time"]\<close>.
\<close>

record ref_frame =
  rcolumns :: "string list"
  rrows :: "snapshot_row list"

record snapshot = ref_frame +
  snapshot_time :: timestamp

text \<open>Line 161: \<^verbatim>\<open>df.rename(columns={"referrers": "referrer"}, inplace=True)\<close>.\<close>

definition rename_referrers :: "string list \<Rightarrow> string list" where
  "rename_referrers cols = map (\<lambda>c. if c = ''referrers'' then ''referrer'' else c) cols"

text \<open>
  Lines 147 to 172, the loop over the discovered paths with its state
  \<^verbatim>\<open>column_names_seen\<close> and \<^verbatim>\<open>dfs\<close>. The name is parsed first, then the file is
  read and its columns are compared.
\<close>

fun load_snapshots :: "string set \<Rightarrow> snapshot list \<Rightarrow> csv_file list \<Rightarrow> error + snapshot list" where
  "load_snapshots column_names_seen dfs [] = Inr dfs"
| "load_snapshots column_names_seen dfs (p # ps) =
     (case strptime (pprefix_of (path p)) of
        Inl e \<Rightarrow> Inl e
      | Inr dt \<Rightarrow>
          let cols = rename_referrers (header p) in
          if column_names_seen \<noteq> {} \<and> set cols \<noteq> column_names_seen
          then Inl (SystemExit 1)
          else load_snapshots (column_names_seen \<union> set cols)
                 (dfs @ [\<lparr>rcolumns = cols, rrows = body p, snapshot_time = utc_localize dt\<rparr>]) ps)"

subsection \<open>The name format as the specification words it\<close>

text \<open>
  A token \<^verbatim>\<open>YYYY-MM-DD_HHMMSS\<close>: four digits, a hyphen, two digits, a hyphen, two
  digits, an underscore and six digits; the fields that the token spells; and a
  base name that is such a token followed by \<^verbatim>\<open>_top_referrers_snapshot.csv\<close>.
\<close>

definition spec_token :: "string \<Rightarrow> bool" where
  "spec_token s =
     (length s = 17 \<and>
      list_all (digit_between 0 9) (take 4 s) \<and> s ! 4 = CHR ''-'' \<and>
      list_all (digit_between 0 9) (take 2 (drop 5 s)) \<and> s ! 7 = CHR ''-'' \<and>
      list_all (digit_between 0 9) (take 2 (drop 8 s)) \<and> s ! 10 = CHR ''_'' \<and>
      list_all (digit_between 0 9) (drop 11 s))"

definition number :: "string \<Rightarrow> int" where
  "number s = foldl (\<lambda>a c. 10 * a + digit_val c) 0 s"

definition token_fields :: "string \<Rightarrow> datetime" where
  "token_fields s =
     \<lparr>year = number (take 4 s), month = number (take 2 (drop 5 s)),
      day = number (take 2 (drop 8 s)), hour = number (take 2 (drop 11 s)),
      minute = number (take 2 (drop 13 s)), second = number (drop 15 s)\<rparr>"

definition name_in_spec_format :: "string \<Rightarrow> bool" where
  "name_in_spec_format p =
     (spec_token (take 17 (basename p)) \<and>
      drop 17 (basename p) = ''_top_referrers_snapshot.csv'')"

text \<open>A loaded snapshot that comes from a file.\<close>

definition loaded_from :: "csv_file \<Rightarrow> snapshot \<Rightarrow> bool" where
  "loaded_from f df =
     (\<exists>dt. strptime (pprefix_of (path f)) = Inr dt \<and> snapshot_time df = utc_localize dt \<and>
           rrows df = body f \<and> rcolumns df = rename_referrers (header f))"

section \<open>Referrers: series per referrer and the top referrers\<close>

text \<open>
  Lines 177 to 179: \<^verbatim>\<open>referrers.update(df["referrer"].values)\<close> for each snapshot;
  \<^verbatim>\<open>df["referrer"]\<close> raises \<^verbatim>\<open>KeyError\<close> when the frame has no such column. The
  names are collected in the order in which they are added.
\<close>

fun collect_referrers :: "snapshot list \<Rightarrow> error + string list" where
  "collect_referrers [] = Inr []"
| "collect_referrers (df # dfs) =
     (if ''referrer'' \<notin> set (rcolumns df) then Inl (KeyError ''referrer'')
      else (case collect_referrers dfs of
              Inl e \<Rightarrow> Inl e
            | Inr names \<Rightarrow> Inr (map referrer (rrows df) @ names)))"

text \<open>
  \<^verbatim>\<open>referrers\<close> is a Python \<^verbatim>\<open>set\<close> of strings. The order in which
  \<^verbatim>\<open>for referrer in referrers\<close> visits it is decided by the hash values of the
  strings, which Python draws anew for every process; the program does not sort
  the names. The order is therefore a parameter: the distinct names, ordered by a
  key \<open>h\<close> that belongs to the run. Every order of the names is the order of
  some \<open>h\<close>.
\<close>

definition set_iteration :: "(string \<Rightarrow> int) \<Rightarrow> string list \<Rightarrow> string list" where
  "set_iteration h names = sort_key h (remdups names)"

text \<open>
  Lines 185 and 186: \<^verbatim>\<open>df["time"] = df.attrs["snapshot_time"]\<close> for every frame
  of \<^verbatim>\<open>dfs\<close>. The statement changes the frame that \<^verbatim>\<open>dfs\<close> holds: the column
  \<^verbatim>\<open>time\<close> is added (or overwritten) with the snapshot time in every row.
\<close>

definition set_time_column :: "snapshot \<Rightarrow> snapshot" where
  "set_time_column df =
     df\<lparr>rcolumns := (if ''time'' \<in> set (rcolumns df) then rcolumns df
                      else rcolumns df @ [''time'']),
        rrows := map (\<lambda>r. r\<lparr>time := Some (snapshot_time df)\<rparr>) (rrows df)\<rparr>"

text \<open>Line 188: \<^verbatim>\<open>dfa = pd.concat(dfs)\<close>, a new frame.\<close>

definition pd_concat_snapshots :: "snapshot list \<Rightarrow> error + ref_frame" where
  "pd_concat_snapshots dfs =
     (if dfs = [] then Inl ValueError
      else Inr \<lparr>rcolumns = union_columns (map rcolumns dfs),
                rrows = concat (map rrows dfs)\<rparr>)"

text \<open>
  Lines 196 to 201 for one referrer: the rows of \<^verbatim>\<open>dfa\<close> with that name, the
  column \<^verbatim>\<open>time\<close> taken as the index and dropped from the columns, the rows
  sorted by the index. \<^verbatim>\<open>rdf["time"]\<close> raises \<^verbatim>\<open>KeyError\<close> when there is no such
  column. A per-referrer frame is the list of its rows with their index values.
  Rows with the same time (a referrer twice in one snapshot) keep their order.
\<close>

type_synonym rdf = "(timestamp \<times> snapshot_row) list"

fun time_column :: "snapshot_row list \<Rightarrow> error + timestamp list" where
  "time_column [] = Inr []"
| "time_column (r # rs) =
     (case time r of
        None \<Rightarrow> Inl (KeyError ''time'')
      | Some t \<Rightarrow> (case time_column rs of Inl e \<Rightarrow> Inl e | Inr ts \<Rightarrow> Inr (t # ts)))"

definition referrer_df :: "ref_frame \<Rightarrow> string \<Rightarrow> error + rdf" where
  "referrer_df dfa name =
     (let sel = filter (\<lambda>r. referrer r = name) (rrows dfa) in
      case time_column sel of
        Inl e \<Rightarrow> Inl e
      | Inr newindex \<Rightarrow>
          Inr (sort_key fst (zip newindex (map (\<lambda>r. r\<lparr>time := None\<rparr>) sel))))"

text \<open>
  Lines 192 to 203: the dictionary \<^verbatim>\<open>referrer_dfs\<close>, filled in the order in which
  the set is visited. A Python dictionary keeps the order of insertion, so it is a
  list of pairs with distinct keys.
\<close>

fun build_referrer_dfs :: "ref_frame \<Rightarrow> string list \<Rightarrow> error + (string \<times> rdf) list" where
  "build_referrer_dfs dfa [] = Inr []"
| "build_referrer_dfs dfa (name # names) =
     (case referrer_df dfa name of
        Inl e \<Rightarrow> Inl e
      | Inr df \<Rightarrow>
          (case build_referrer_dfs dfa names of
             Inl e \<Rightarrow> Inl e
           | Inr rest \<Rightarrow> Inr ((name, df) # rest)))"

text \<open>
  Lines 223 to 225: \<^verbatim>\<open>ref_max_cu_map[rname] = rdf["count_unique"].max()\<close>. The
  column must exist. The maximum of a series without a number is \<^verbatim>\<open>NaN\<close>
  (\<open>None\<close>).
\<close>

definition count_unique_series :: "rdf \<Rightarrow> (timestamp \<times> int) list" where
  "count_unique_series df = map (\<lambda>(t, r). (t, count_unique r)) df"

definition series_max :: "(timestamp \<times> int) list \<Rightarrow> int option" where
  "series_max s = nanmax_list (map (\<lambda>(t, v). Some v) s)"

definition build_ref_max_cu_map ::
    "string list \<Rightarrow> (string \<times> rdf) list \<Rightarrow> error + (string \<times> int option) list" where
  "build_ref_max_cu_map cols dfs =
     (if dfs \<noteq> [] \<and> ''count_unique'' \<notin> set cols then Inl (KeyError ''count_unique'')
      else Inr (map (\<lambda>(rname, df). (rname, series_max (count_unique_series df))) dfs))"

text \<open>
  Lines 229 to 232: \<^verbatim>\<open>sorted(ref_max_cu_map.items(), key=lambda i: i[1], reverse=True)\<close>.
  Python's \<^verbatim>\<open>sorted\<close> is stable, and with \<^verbatim>\<open>reverse=True\<close> it reverses the list,
  sorts it and reverses the result, so that items with equal keys keep the order
  they had. The keys are ordered as numbers; the key \<open>None\<close> would be smaller
  than every number, and it does not arise, because every referrer of the set has a
  row.
\<close>

definition sorted_reverse :: "('a \<Rightarrow> 'k::linorder) \<Rightarrow> 'a list \<Rightarrow> 'a list" where
  "sorted_reverse key xs = rev (sort_key key (rev xs))"

definition top_n :: nat where
  "top_n = 5"


text \<open>
  Lines 244 to 248: \<^verbatim>\<open>df_top_cu = pd.DataFrame()\<close> and then
  \<^verbatim>\<open>df_top_cu[rname] = rdf["count_unique"]\<close> for the top referrers in their order.
  A table is its index and its columns, each column a list of cells as long as the
  index (\<open>None\<close> is \<^verbatim>\<open>NaN\<close>).

  Setting a column from a series follows pandas: a frame whose index is empty
  takes the index of a non-empty series; a series whose index equals the index of
  the frame gives its values as they are; any other series is reindexed to the
  index of the frame, which raises \<^verbatim>\<open>ValueError\<close> when the index of the series has
  a label twice, gives \<^verbatim>\<open>NaN\<close> for a label of the frame that the series lacks, and
  leaves out the labels of the series that the frame lacks.
\<close>

record top_table =
  tindex :: "timestamp list"
  tcolumns :: "(string \<times> int option list) list"

definition put_column :: "string \<Rightarrow> int option list \<Rightarrow> (string \<times> int option list) list \<Rightarrow> (string \<times> int option list) list" where
  "put_column rname cells cols =
     (if rname \<in> set (map fst cols)
      then map (\<lambda>(n, old). if n = rname then (n, cells) else (n, old)) cols
      else cols @ [(rname, cells)])"

definition setitem :: "top_table \<Rightarrow> string \<Rightarrow> (timestamp \<times> int) list \<Rightarrow> error + top_table" where
  "setitem tbl rname s =
     (let tbl1 = (if tindex tbl = [] \<and> s \<noteq> []
                  then \<lparr>tindex = map fst s,
                        tcolumns = map (\<lambda>(n, old). (n, replicate (length s) None)) (tcolumns tbl)\<rparr>
                  else tbl)
      in if map fst s = tindex tbl1 \<or> tindex tbl1 = []
         then Inr (tbl1\<lparr>tcolumns := put_column rname (map (\<lambda>(t, v). Some v) s) (tcolumns tbl1)\<rparr>)
         else if \<not> distinct (map fst s) then Inl ValueError
         else Inr (tbl1\<lparr>tcolumns := put_column rname (map (map_of s) (tindex tbl1)) (tcolumns tbl1)\<rparr>))"

fun build_df_top_cu :: "(string \<times> rdf) list \<Rightarrow> top_table \<Rightarrow> string list \<Rightarrow> error + top_table" where
  "build_df_top_cu referrer_dfs tbl [] = Inr tbl"
| "build_df_top_cu referrer_dfs tbl (rname # rnames) =
     (case map_of referrer_dfs rname of
        None \<Rightarrow> Inl (KeyError rname)
      | Some df \<Rightarrow>
          (case setitem tbl rname (count_unique_series df) of
             Inl e \<Rightarrow> Inl e
           | Inr tbl' \<Rightarrow> build_df_top_cu referrer_dfs tbl' rnames))"

text \<open>
  The part of \<^verbatim>\<open>analyse_referrer_snapshots\<close> that computes data, lines 177 to
  248, from the loaded snapshots. The state at line 248 is returned: \<^verbatim>\<open>dfs\<close> as
  it is then, \<^verbatim>\<open>referrer_dfs\<close>, \<^verbatim>\<open>ref_max_cu_map\<close>, \<^verbatim>\<open>sorted_dict\<close> (in the
  order of its keys), \<^verbatim>\<open>top_n_rnames\<close> and \<^verbatim>\<open>df_top_cu\<close>.
\<close>

record ref_result =
  ref_dfs :: "snapshot list"
  referrer_dfs :: "(string \<times> rdf) list"
  ref_max_cu_map :: "(string \<times> int option) list"
  sorted_dict :: "(string \<times> int option) list"
  top_n_rnames :: "string list"
  df_top_cu :: top_table

definition aggregate_referrers :: "(string \<Rightarrow> int) \<Rightarrow> snapshot list \<Rightarrow> error + ref_result" where
  "aggregate_referrers h dfs0 =
     (case collect_referrers dfs0 of
        Inl e \<Rightarrow> Inl e
      | Inr names \<Rightarrow>
         (let referrers = set_iteration h names;
              dfs = map set_time_column dfs0
          in case pd_concat_snapshots dfs of
               Inl e \<Rightarrow> Inl e
             | Inr dfa \<Rightarrow>
                (case build_referrer_dfs dfa referrers of
                   Inl e \<Rightarrow> Inl e
                 | Inr rdfs \<Rightarrow>
                    (case build_ref_max_cu_map (rcolumns dfa) rdfs of
                       Inl e \<Rightarrow> Inl e
                     | Inr m \<Rightarrow>
                        (let sd = sorted_reverse snd m;
                             rnames = take top_n (map fst sd)
                         in case build_df_top_cu rdfs \<lparr>tindex = [], tcolumns = []\<rparr> rnames of
                              Inl e \<Rightarrow> Inl e
                            | Inr tbl \<Rightarrow>
                                Inr \<lparr>ref_dfs = dfs, referrer_dfs = rdfs,
                                     ref_max_cu_map = m, sorted_dict = sd,
                                     top_n_rnames = rnames, df_top_cu = tbl\<rparr>)))))"

definition analyse_referrer_snapshots :: "(string \<Rightarrow> int) \<Rightarrow> csv_file list \<Rightarrow> error + ref_result" where
  "analyse_referrer_snapshots h files =
     (case load_snapshots {} [] files of
        Inl e \<Rightarrow> Inl e
      | Inr dfs \<Rightarrow> aggregate_referrers h dfs)"

subsection \<open>Notions used to state the properties of the ranking and the table\<close>

text \<open>
  The rows of all snapshots, the referrers they name, the largest
  \<^verbatim>\<open>count_unique\<close> among the rows of a referrer, the snapshot times at which a
  referrer has a row (once for each row, in the order of the snapshots), and the
  values of \<^verbatim>\<open>count_unique\<close> in the rows of a referrer in snapshots taken at a
  given time.
\<close>

definition all_rows :: "snapshot list \<Rightarrow> snapshot_row list" where
  "all_rows dfs = concat (map rrows dfs)"

definition observed_names :: "snapshot list \<Rightarrow> string set" where
  "observed_names dfs = referrer ` set (all_rows dfs)"

definition max_count_unique :: "snapshot list \<Rightarrow> string \<Rightarrow> int" where
  "max_count_unique dfs n = Max (count_unique ` {r \<in> set (all_rows dfs). referrer r = n})"

definition observation_times :: "snapshot list \<Rightarrow> string \<Rightarrow> timestamp list" where
  "observation_times dfs n =
     concat (map (\<lambda>df. map (\<lambda>r. snapshot_time df) (filter (\<lambda>r. referrer r = n) (rrows df))) dfs)"

definition observed :: "snapshot list \<Rightarrow> string \<Rightarrow> timestamp \<Rightarrow> int set" where
  "observed dfs n t =
     {v. \<exists>df \<in> set dfs. \<exists>r \<in> set (rrows df).
           snapshot_time df = t \<and> referrer r = n \<and> count_unique r = v}"

subsection \<open>Auxiliary notions\<close>

text \<open>
  The rows of \<^verbatim>\<open>dfa\<close>: the rows of the snapshots, each with the time of its
  snapshot in the column \<^verbatim>\<open>time\<close>.
\<close>

definition timed_rows :: "snapshot list \<Rightarrow> snapshot_row list" where
  "timed_rows dfs = concat (map (\<lambda>df. map (\<lambda>r. r\<lparr>time := Some (snapshot_time df)\<rparr>) (rrows df)) dfs)"

text \<open>
  The observations of a referrer, in the order of the snapshots: the snapshot
  time and the value of \<^verbatim>\<open>count_unique\<close> of each of its rows.
\<close>

definition raw_series :: "snapshot list \<Rightarrow> string \<Rightarrow> (timestamp \<times> int) list" where
  "raw_series dfs n =
     concat (map (\<lambda>df. map (\<lambda>r. (snapshot_time df, count_unique r))
                          (filter (\<lambda>r. referrer r = n) (rrows df))) dfs)"

text \<open>
  The cells that a series gives to a table with index \<open>idx\<close>: its values when
  its index is \<open>idx\<close>, and otherwise, for each label of \<open>idx\<close>, the value that
  the series has at that label, if any.
\<close>

definition aligned_cells :: "timestamp list \<Rightarrow> (timestamp \<times> int) list \<Rightarrow> int option list" where
  "aligned_cells idx s =
     (if map fst s = idx then map (\<lambda>(t, v). Some v) s else map (map_of s) idx)"

text \<open>
  A column of the table agrees with the series of its referrer.
\<close>

definition col_ok :: "(string \<times> rdf) list \<Rightarrow> timestamp list \<Rightarrow> string \<times> int option list \<Rightarrow> bool" where
  "col_ok rdfs idx col =
     (\<exists>df. map_of rdfs (fst col) = Some df \<and>
           snd col = aligned_cells idx (count_unique_series df) \<and>
           (map fst (count_unique_series df) = idx \<or> distinct (map fst (count_unique_series df))))"

text \<open>
  Snapshots as the traffic API gives them: at least one snapshot, the columns
  \<^verbatim>\<open>referrer\<close> and \<^verbatim>\<open>count_unique\<close> in each, no two snapshots taken at the same
  time, and no referrer twice in a snapshot.
\<close>

definition wf_snapshots :: "snapshot list \<Rightarrow> bool" where
  "wf_snapshots dfs =
     (dfs \<noteq> [] \<and>
      list_all (\<lambda>df. ''referrer'' \<in> set (rcolumns df) \<and> ''count_unique'' \<in> set (rcolumns df)) dfs \<and>
      distinct (map snapshot_time dfs) \<and>
      list_all (\<lambda>df. distinct (map referrer (rrows df))) dfs)"

section \<open>Objects and references\<close>

text \<open>
  To say which data frames a function changes and which it creates, the frames
  are put in a store: a list of objects, each known by its position, its address.
  A Python variable or list holds addresses. A new object goes to the end of the
  store; an operation in place replaces the object at an address.
\<close>

type_synonym addr = nat

definition alloc :: "'a list \<Rightarrow> 'a \<Rightarrow> 'a list \<times> addr" where
  "alloc store v = (store @ [v], length store)"

fun alloc_all :: "'a list \<Rightarrow> 'a list \<Rightarrow> 'a list \<times> addr list" where
  "alloc_all store [] = (store, [])"
| "alloc_all store (v # vs) =
     (let (store1, a) = alloc store v;
          (store2, as) = alloc_all store1 vs
      in (store2, a # as))"

text \<open>
  Lines 375 to 394 on a store of views/clones frames, \<^verbatim>\<open>dfs\<close> being the addresses
  of the loaded fragments: \<^verbatim>\<open>dfa = pd.concat(dfs)\<close> returns a new frame,
  \<^verbatim>\<open>dfa.sort_index(inplace=True)\<close> changes the frame that \<^verbatim>\<open>dfa\<close> refers to, and
  \<^verbatim>\<open>df_agg = dfa.groupby(dfa.index).max()\<close> returns a new frame. The result is the
  store and the addresses \<^verbatim>\<open>dfa\<close> and \<^verbatim>\<open>df_agg\<close>. Line 379 renames the index of
  \<^verbatim>\<open>dfa\<close>; a frame of the model has the index values, the columns and the
  cells, and no name for its index.
\<close>

definition reconcile_in_store :: "frame list \<Rightarrow> addr list \<Rightarrow> error + (frame list \<times> addr \<times> addr)" where
  "reconcile_in_store store dfs =
     (case pd_concat (map ((!) store) dfs) of
        Inl e \<Rightarrow> Inl e
      | Inr v \<Rightarrow>
          (let (store1, dfa) = alloc store v;
               store2 = store1[dfa := sort_index (store1 ! dfa)];
               (store3, agg) = alloc store2 (groupby_index_max (store2 ! dfa))
           in Inr (store3, dfa, agg)))"

text \<open>
  The data frames of the referrer analysis: a loaded snapshot (with
  \<^verbatim>\<open>attrs["snapshot_time"]\<close>), the frame \<^verbatim>\<open>dfa\<close>, a per-referrer frame, and the
  table \<^verbatim>\<open>df_top_cu\<close>.
\<close>

datatype dataframe =
    Loaded snapshot
  | Concatenated ref_frame
  | PerReferrer rdf
  | TopTable top_table

text \<open>
  The snapshots that the addresses of \<^verbatim>\<open>dfs\<close> refer to. The loading loop puts
  loaded snapshots into \<^verbatim>\<open>dfs\<close>; a frame of another kind has no
  \<^verbatim>\<open>attrs["snapshot_time"]\<close>, for which line 186 raises \<^verbatim>\<open>KeyError\<close>.
\<close>

fun loaded_at :: "dataframe list \<Rightarrow> addr list \<Rightarrow> error + snapshot list" where
  "loaded_at store [] = Inr []"
| "loaded_at store (a # as) =
     (case store ! a of
        Loaded s \<Rightarrow>
          (case loaded_at store as of Inl e \<Rightarrow> Inl e | Inr ss \<Rightarrow> Inr (s # ss))
      | _ \<Rightarrow> Inl (KeyError ''snapshot_time''))"

text \<open>
  Lines 185 and 186 for one frame of \<^verbatim>\<open>dfs\<close>: \<^verbatim>\<open>df["time"] = ...\<close> replaces the
  object at the address of \<^verbatim>\<open>df\<close>.
\<close>

fun with_time :: "dataframe \<Rightarrow> dataframe" where
  "with_time (Loaded s) = Loaded (set_time_column s)"
| "with_time other = other"

definition set_time_at :: "addr \<Rightarrow> dataframe list \<Rightarrow> dataframe list" where
  "set_time_at a store = store[a := with_time (store ! a)]"

text \<open>
  Lines 177 to 248 on a store, \<^verbatim>\<open>dfs\<close> being the addresses of the loaded
  snapshots. The values are computed as in \<open>aggregate_referrers\<close>; the store
  records where they go. The loop of lines 185 and 186 changes the snapshots in
  place. \<^verbatim>\<open>pd.concat\<close> returns a new frame. Each per-referrer frame is a new frame
  (the selection of line 196, \<^verbatim>\<open>drop\<close> and \<^verbatim>\<open>sort_index\<close> return new frames), and
  the dictionary \<^verbatim>\<open>referrer_dfs\<close> holds their addresses. \<^verbatim>\<open>pd.DataFrame()\<close> is a new
  frame, which the assignments of line 248 change in place.
\<close>

record store_result =
  s_dfa :: addr
  s_referrer_dfs :: "(string \<times> addr) list"
  s_top_n_rnames :: "string list"
  s_df_top_cu :: addr

definition aggregate_in_store ::
    "(string \<Rightarrow> int) \<Rightarrow> dataframe list \<Rightarrow> addr list \<Rightarrow> error + (dataframe list \<times> store_result)" where
  "aggregate_in_store h store dfs =
     (case loaded_at store dfs of
        Inl e \<Rightarrow> Inl e
      | Inr snaps0 \<Rightarrow>
     (case collect_referrers snaps0 of
        Inl e \<Rightarrow> Inl e
      | Inr names \<Rightarrow>
     (let referrers = set_iteration h names;
          store1 = fold set_time_at dfs store
      in
     (case loaded_at store1 dfs of
        Inl e \<Rightarrow> Inl e
      | Inr snaps \<Rightarrow>
     (case pd_concat_snapshots snaps of
        Inl e \<Rightarrow> Inl e
      | Inr v \<Rightarrow>
     (let (store2, dfa) = alloc store1 (Concatenated v) in
     (case build_referrer_dfs v referrers of
        Inl e \<Rightarrow> Inl e
      | Inr rdfs \<Rightarrow>
     (let (store3, addrs) = alloc_all store2 (map (\<lambda>(rname, df). PerReferrer df) rdfs) in
     (case build_ref_max_cu_map (rcolumns v) rdfs of
        Inl e \<Rightarrow> Inl e
      | Inr m \<Rightarrow>
     (let rnames = take top_n (map fst (sorted_reverse snd m));
          (store4, tbl) = alloc store3 (TopTable \<lparr>tindex = [], tcolumns = []\<rparr>)
      in
     (case build_df_top_cu rdfs \<lparr>tindex = [], tcolumns = []\<rparr> rnames of
        Inl e \<Rightarrow> Inl e
      | Inr t \<Rightarrow>
          Inr (store4[tbl := TopTable t],
               \<lparr>s_dfa = dfa, s_referrer_dfs = zip (map fst rdfs) addrs,
                s_top_n_rnames = rnames, s_df_top_cu = tbl\<rparr>))))))))))))"

section \<open>Example inputs\<close>

text \<open>
  Two referrer snapshots in which the largest \<^verbatim>\<open>count_unique\<close> seen is 50 for A,
  40 for B, 30 for C, 20 for D, 10 for E and 5 for F. D and E are absent from the
  second snapshot.
\<close>

definition mk_row :: "string \<Rightarrow> int \<Rightarrow> int \<Rightarrow> snapshot_row" where
  "mk_row name c cu = \<lparr>referrer = name, count = c, count_unique = cu, time = None\<rparr>"

definition snapshot_file1 :: csv_file where
  "snapshot_file1 =
     \<lparr>path = ''csv/2020-12-01_000000_top_referrers_snapshot.csv'',
      header = [''referrer'', ''count'', ''count_unique''],
      body = [mk_row ''A'' 80 50, mk_row ''B'' 60 35, mk_row ''C'' 40 30,
              mk_row ''D'' 30 20, mk_row ''E'' 12 10, mk_row ''F'' 9 5]\<rparr>"

definition snapshot_file2 :: csv_file where
  "snapshot_file2 =
     \<lparr>path = ''csv/2020-12-02_000000_top_referrers_snapshot.csv'',
      header = [''referrer'', ''count'', ''count_unique''],
      body = [mk_row ''A'' 70 45, mk_row ''B'' 66 40, mk_row ''C'' 31 25,
              mk_row ''F'' 4 3]\<rparr>"

text \<open>
  A snapshot written with the column label \<^verbatim>\<open>referrers\<close>, which line 161
  renames.
\<close>

definition snapshot_file_old :: csv_file where
  "snapshot_file_old =
     \<lparr>path = ''csv/2020-11-30_120000_top_referrers_snapshot.csv'',
      header = [''referrers'', ''count'', ''count_unique''],
      body = [mk_row ''A'' 20 15]\<rparr>"

text \<open>A snapshot file with other columns.\<close>

definition snapshot_file_other :: csv_file where
  "snapshot_file_other =
     \<lparr>path = ''csv/2020-12-03_000000_top_referrers_snapshot.csv'',
      header = [''referrer'', ''count''],
      body = [mk_row ''A'' 20 0]\<rparr>"

text \<open>A views/clones fragment with other columns than \<open>fragment1\<close>.\<close>

definition fragment_views :: frame where
  "fragment_views = \<lparr>columns = [''views_total''],
                      rows = [(20201201, [''views_total'' \<mapsto> 4])]\<rparr>"

text \<open>The loaded snapshots of the two example files.\<close>

definition loaded1 :: snapshot where
  "loaded1 = \<lparr>rcolumns = [''referrer'', ''count'', ''count_unique''],
               rrows = body snapshot_file1, snapshot_time = 20201201000000\<rparr>"

definition loaded2 :: snapshot where
  "loaded2 = \<lparr>rcolumns = [''referrer'', ''count'', ''count_unique''],
               rrows = body snapshot_file2, snapshot_time = 20201202000000\<rparr>"

text \<open>
  A snapshot in which six referrers have the same \<^verbatim>\<open>count_unique\<close>, and two
  orders in which a run can visit the set of their names.
\<close>

definition tied :: snapshot where
  "tied = \<lparr>rcolumns = [''referrer'', ''count'', ''count_unique''],
            rrows = [mk_row ''R1'' 9 7, mk_row ''R2'' 9 7, mk_row ''R3'' 9 7,
                     mk_row ''R4'' 9 7, mk_row ''R5'' 9 7, mk_row ''R6'' 9 7],
            snapshot_time = 20201201000000\<rparr>"

definition order1 :: "string \<Rightarrow> int" where
  "order1 n = 0"

definition order2 :: "string \<Rightarrow> int" where
  "order2 n = (if n = ''R1'' then 1 else 0)"

text \<open>
  Two snapshots with one referrer each: A is seen on Dec 1 only, B on Dec 2 only.
\<close>

definition snap_a :: snapshot where
  "snap_a = \<lparr>rcolumns = [''referrer'', ''count'', ''count_unique''],
              rrows = [mk_row ''A'' 80 50], snapshot_time = 20201201000000\<rparr>"

definition snap_b :: snapshot where
  "snap_b = \<lparr>rcolumns = [''referrer'', ''count'', ''count_unique''],
              rrows = [mk_row ''B'' 66 40], snapshot_time = 20201202000000\<rparr>"

text \<open>A views/clones fragment with the four columns that lines 415 and 416 drop.\<close>

definition fragment_full :: frame where
  "fragment_full =
     \<lparr>columns = [''clones_total'', ''clones_unique'', ''views_total'', ''views_unique''],
      rows = [(20201201, [''clones_total'' \<mapsto> 10, ''clones_unique'' \<mapsto> 3,
                          ''views_total'' \<mapsto> 40, ''views_unique'' \<mapsto> 12])]\<rparr>"

text \<open>A snapshot file whose name writes the month with one digit.\<close>

definition snapshot_file_short :: csv_file where
  "snapshot_file_short =
     \<lparr>path = ''csv/2020-1-01_000000_top_referrers_snapshot.csv'',
      header = [''referrer'', ''count'', ''count_unique''],
      body = [mk_row ''A'' 20 15]\<rparr>"

text \<open>A snapshot file whose name carries no time.\<close>

definition snapshot_file_bad :: csv_file where
  "snapshot_file_bad =
     \<lparr>path = ''csv/latest_top_referrers_snapshot.csv'',
      header = [''referrer'', ''count'', ''count_unique''],
      body = [mk_row ''A'' 20 15]\<rparr>"

text \<open>
  Three snapshots: A and B are seen on Dec 1, only B on Dec 2 (with its largest
  value), only A on Dec 3.
\<close>

definition snap_dec1 :: snapshot where
  "snap_dec1 = \<lparr>rcolumns = [''referrer'', ''count'', ''count_unique''],
                 rrows = [mk_row ''A'' 80 50, mk_row ''B'' 9 5],
                 snapshot_time = 20201201000000\<rparr>"

definition snap_dec2 :: snapshot where
  "snap_dec2 = \<lparr>rcolumns = [''referrer'', ''count'', ''count_unique''],
                 rrows = [mk_row ''B'' 66 40], snapshot_time = 20201202000000\<rparr>"

definition snap_dec3 :: snapshot where
  "snap_dec3 = \<lparr>rcolumns = [''referrer'', ''count'', ''count_unique''],
                 rrows = [mk_row ''A'' 70 45], snapshot_time = 20201203000000\<rparr>"

section \<open>Properties of the views and clones aggregate\<close>

subsection \<open>Auxiliary facts\<close>

lemma load_fragments_Inr:
  "load_fragments seen dfs ps = Inr r \<Longrightarrow> r = dfs @ ps"
proof (induction ps arbitrary: seen dfs)
  case Nil
  then show ?case by simp
next
  case (Cons df ps)
  from Cons.prems have "load_fragments (seen \<union> set (columns df)) (dfs @ [df]) ps = Inr r"
    by (simp split: if_splits)
  from Cons.IH[OF this] show ?case by simp
qed

lemma present_simps:
  "present [] = {}"
  "present (None # xs) = present xs"
  "present (Some a # xs) = insert a (present xs)"
  by (auto simp: present_def)

lemma finite_present: "finite (present xs)"
proof -
  have "present xs \<subseteq> the ` set xs" by (force simp: present_def)
  then show ?thesis by (rule finite_subset) simp
qed

lemma nanmax_list_Max:
  "nanmax_list xs = (if present xs = {} then None else Some (Max (present xs)))"
proof (induction xs)
  case Nil
  then show ?case by (simp add: present_simps)
next
  case (Cons x xs)
  show ?case
  proof (cases x)
    case None
    then show ?thesis using Cons by (simp add: present_simps)
  next
    case (Some a)
    then show ?thesis using Cons finite_present[of xs]
      by (auto simp: present_simps max_def Max_insert)
  qed
qed

lemma nanmax_list_cong_set:
  "set xs = set ys \<Longrightarrow> nanmax_list xs = nanmax_list ys"
  by (simp add: nanmax_list_Max present_def)

lemma reconcile_Inr:
  "dfs \<noteq> [] \<Longrightarrow> reconcile dfs = Inr (groupby_index_max (sort_index
      \<lparr>columns = union_columns (map columns dfs), rows = concat (map rows dfs)\<rparr>))"
  by (simp add: reconcile_def pd_concat_def)

lemma reconcile_Nil: "reconcile [] = Inl ValueError"
  by (simp add: reconcile_def pd_concat_def)

lemma reconcile_times:
  assumes "reconcile dfs = Inr agg"
  shows "map fst (rows agg) = sort (remdups (map fst (concat (map rows dfs))))"
proof -
  have ne: "dfs \<noteq> []" using assms by (auto simp: reconcile_Nil)
  have "sort (remdups (map fst (sort_key fst xs))) = sort (remdups (map fst xs))"
    for xs :: "(timestamp \<times> (string \<rightharpoonup> int)) list"
    by (metis sorted_list_of_set_sort_remdups set_map set_sort)
  moreover have "agg = groupby_index_max (sort_index
      \<lparr>columns = union_columns (map columns dfs), rows = concat (map rows dfs)\<rparr>)"
    using assms reconcile_Inr[OF ne] by simp
  ultimately show ?thesis
    by (simp add: groupby_index_max_def sort_index_def comp_def)
qed


lemma reconcile_eq:
  assumes "reconcile dfs = Inr agg"
  shows "dfs \<noteq> []"
    and "columns agg = union_columns (map columns dfs)"
    and "rows agg = map (\<lambda>t. (t, group_max (union_columns (map columns dfs))
                 (group_rows t (sort_key fst (concat (map rows dfs))))))
              (sort (remdups (map fst (concat (map rows dfs)))))"
proof -
  show ne: "dfs \<noteq> []" using assms by (auto simp: reconcile_Nil)
  have sr: "sort (remdups (map fst (sort_key fst xs))) = sort (remdups (map fst xs))"
    for xs :: "(timestamp \<times> (string \<rightharpoonup> int)) list"
    by (metis sorted_list_of_set_sort_remdups set_map set_sort)
  have agg: "agg = groupby_index_max (sort_index
      \<lparr>columns = union_columns (map columns dfs), rows = concat (map rows dfs)\<rparr>)"
    using assms reconcile_Inr[OF ne] by simp
  show "columns agg = union_columns (map columns dfs)"
    by (simp add: agg groupby_index_max_def sort_index_def)
  show "rows agg = map (\<lambda>t. (t, group_max (union_columns (map columns dfs))
                 (group_rows t (sort_key fst (concat (map rows dfs))))))
              (sort (remdups (map fst (concat (map rows dfs)))))"
    by (simp add: agg groupby_index_max_def sort_index_def sr)
qed

lemma present_group:
  "present (map (\<lambda>r. snd r c) (group_rows t (sort_key fst (concat (map rows dfs)))))
     = values_at dfs t c"
  by (force simp: present_def values_at_def group_rows_def)

lemma set_union_columns: "set (union_columns css) = \<Union> (set ` set css)"
  by (simp add: union_columns_def)

lemma distinct_union_columns: "distinct (union_columns css)"
  by (simp add: union_columns_def)

lemma reconcile_cell:
  assumes "reconcile dfs = Inr agg" and "(t, m) \<in> set (rows agg)"
  shows "m c = (if c \<in> set (columns agg)
                then (if values_at dfs t c = {} then None else Some (Max (values_at dfs t c)))
                else None)"
proof -
  from assms(2) have "m = group_max (union_columns (map columns dfs))
                 (group_rows t (sort_key fst (concat (map rows dfs))))"
    unfolding reconcile_eq(3)[OF assms(1)] by auto
  then show ?thesis
    by (simp add: group_max_def nanmax_list_Max present_group reconcile_eq(2)[OF assms(1)])
qed

lemma sorted_wrt_less_sort_remdups: "sorted_wrt (<) (sort (remdups (xs::int list)))"
  by (simp add: strict_sorted_iff)

lemma group_rows_distinct:
  "distinct (map fst rs) \<Longrightarrow> r \<in> set rs \<Longrightarrow> group_rows (fst r) rs = [r]"
proof (induction rs)
  case Nil
  then show ?case by simp
next
  case (Cons a rs)
  show ?case
  proof (cases "r = a")
    case True
    have "fst a \<notin> fst ` set rs"
      using Cons.prems(1) by simp
    then have "\<forall>x \<in> set rs. fst x \<noteq> fst a"
      by (metis imageI)
    then have "filter (\<lambda>x. fst x = fst a) rs = []"
      by (simp add: filter_empty_conv)
    then show ?thesis using True by (simp add: group_rows_def)
  next
    case False
    then have "r \<in> set rs" using Cons.prems by simp
    moreover have "fst a \<noteq> fst r" using Cons.prems \<open>r \<in> set rs\<close> by force
    ultimately show ?thesis using Cons by (simp add: group_rows_def)
  qed
qed

lemma group_max_single:
  "dom (snd r) \<subseteq> set cols \<Longrightarrow> group_max cols [r] = snd r"
proof
  fix c
  assume d: "dom (snd r) \<subseteq> set cols"
  show "group_max cols [r] c = snd r c"
  proof (cases "c \<in> set cols")
    case True
    then show ?thesis by (cases "snd r c") (simp_all add: group_max_def)
  next
    case False
    then have "snd r c = None" using d by auto
    then show ?thesis using False by (simp add: group_max_def)
  qed
qed

lemma regroup_distinct:
  assumes "distinct (map fst rs)" and "\<forall>r \<in> set rs. dom (snd r) \<subseteq> set cols"
  shows "map (\<lambda>t. (t, group_max cols (group_rows t rs))) (map fst rs) = rs"
proof -
  have "(fst r, group_max cols (group_rows (fst r) rs)) = r" if "r \<in> set rs" for r
    using group_rows_distinct[OF assms(1) that] assms(2) that
    by (simp add: group_max_single)
  then show ?thesis by (simp add: map_idI comp_def)
qed

lemma union_columns_single: "distinct cs \<Longrightarrow> union_columns [cs] = cs"
  by (simp add: union_columns_def distinct_remdups_id)

lemma dom_group_max: "dom (group_max cols g) \<subseteq> set cols"
  by (auto simp: group_max_def split: if_splits)

lemma reconcile_wf:
  assumes "reconcile dfs = Inr agg"
  shows "wf_frame agg"
  using dom_group_max
  by (simp add: wf_frame_def list_all_iff reconcile_eq(2,3)[OF assms])

lemma group_max_cong_set:
  assumes "set cols = set cols'" and "set rs = set rs'"
  shows "group_max cols (group_rows t (sort_key fst rs)) =
         group_max cols' (group_rows t (sort_key fst rs'))"
proof
  fix c
  have "set (map (\<lambda>r. snd r c) (group_rows t (sort_key fst rs))) =
        set (map (\<lambda>r. snd r c) (group_rows t (sort_key fst rs')))"
    using assms(2) by (simp add: group_rows_def)
  then have "nanmax_list (map (\<lambda>r. snd r c) (group_rows t (sort_key fst rs))) =
        nanmax_list (map (\<lambda>r. snd r c) (group_rows t (sort_key fst rs')))"
    by (rule nanmax_list_cong_set)
  then show "group_max cols (group_rows t (sort_key fst rs)) c =
         group_max cols' (group_rows t (sort_key fst rs')) c"
    using assms(1) by (simp add: group_max_def)
qed

lemma sort_remdups_cong_set:
  "set xs = set ys \<Longrightarrow> sort (remdups xs) = sort (remdups (ys::int list))"
  by (metis sorted_list_of_set_sort_remdups)

lemma reconcile_cong_set:
  assumes "set dfs = set dfs'" and "reconcile dfs = Inr a"
  shows "\<exists>b. reconcile dfs' = Inr b \<and> rows b = rows a \<and> set (columns b) = set (columns a)"
proof -
  have ne: "dfs' \<noteq> []" using assms reconcile_eq(1)[OF assms(2)] by auto
  define b where "b = groupby_index_max (sort_index
      \<lparr>columns = union_columns (map columns dfs'), rows = concat (map rows dfs')\<rparr>)"
  have rb: "reconcile dfs' = Inr b" using reconcile_Inr[OF ne] by (simp add: b_def)
  have sc: "set (union_columns (map columns dfs')) = set (union_columns (map columns dfs))"
    using assms(1) by (simp add: set_union_columns)
  have sr: "set (concat (map rows dfs')) = set (concat (map rows dfs))"
    using assms(1) by simp
  have keys: "sort (remdups (map fst (concat (map rows dfs')))) =
      sort (remdups (map fst (concat (map rows dfs))))"
    by (rule sort_remdups_cong_set) (simp only: set_map sr)
  have "rows b = rows a"
    unfolding reconcile_eq(3)[OF assms(2)] reconcile_eq(3)[OF rb] keys
    using group_max_cong_set[OF sc sr] by simp
  moreover have "set (columns b) = set (columns a)"
    by (simp only: reconcile_eq(2)[OF assms(2)] reconcile_eq(2)[OF rb] sc)
  ultimately show ?thesis using rb by blast
qed

lemma remdups_append_subset:
  "set xs \<subseteq> set ys \<Longrightarrow> remdups (xs @ ys) = remdups ys"
  by (induction xs) auto

lemma union_columns_same:
  assumes "css \<noteq> []" and "\<forall>cs \<in> set css. cs = c0"
  shows "union_columns css = rev (remdups (rev c0))"
  using assms
proof (induction css rule: rev_induct)
  case Nil
  then show ?case by simp
next
  case (snoc x xs)
  show ?case
  proof (cases "xs = []")
    case True
    then show ?thesis using snoc.prems by (simp add: union_columns_def)
  next
    case False
    then have ih: "union_columns xs = rev (remdups (rev c0))" using snoc by simp
    have x: "x = c0" using snoc.prems by simp
    have sub: "set (rev c0) \<subseteq> set (rev (concat xs))"
      using False snoc.prems by (cases xs) auto
    have "union_columns (xs @ [x]) = rev (remdups (rev c0 @ rev (concat xs)))"
      by (simp add: union_columns_def x)
    also have "\<dots> = rev (remdups (rev (concat xs)))"
      using remdups_append_subset[OF sub] by simp
    also have "\<dots> = rev (remdups (rev c0))" using ih by (simp add: union_columns_def)
    finally show ?thesis .
  qed
qed

lemma group_rows_single:
  assumes "group_rows t rs = [r]"
  shows "group_rows t (sort_key fst rs) = [r]"
proof -
  have "group_rows t (sort_key fst rs) = sort_key fst (group_rows t rs)"
    by (simp add: group_rows_def filter_sort)
  then show ?thesis using assms by simp
qed

lemma reconcile_single_row:
  assumes rec: "reconcile dfs = Inr agg"
    and wf: "list_all wf_frame dfs"
    and one: "group_rows (fst r) (concat (map rows dfs)) = [r]"
  shows "r \<in> set (rows agg)"
proof -
  let ?R = "concat (map rows dfs)"
  let ?cols = "union_columns (map columns dfs)"
  have "r \<in> set (group_rows (fst r) ?R)" using one by simp
  then have rin: "r \<in> set ?R" by (simp add: group_rows_def)
  then obtain df where df: "df \<in> set dfs" "r \<in> set (rows df)" by auto
  then have "dom (snd r) \<subseteq> set (columns df)"
    using wf by (auto simp: list_all_iff wf_frame_def)
  then have dom: "dom (snd r) \<subseteq> set ?cols"
    using df(1) by (auto simp: set_union_columns)
  have key: "fst r \<in> set (sort (remdups (map fst ?R)))" using rin by simp
  have "group_max ?cols (group_rows (fst r) (sort_key fst ?R)) = snd r"
    by (simp add: group_rows_single[OF one] group_max_single[OF dom])
  then have "(fst r, group_max ?cols (group_rows (fst r) (sort_key fst ?R))) = r"
    by simp
  then have "r \<in> (\<lambda>t. (t, group_max ?cols (group_rows t (sort_key fst ?R)))) `
                 set (sort (remdups (map fst ?R)))"
    using key by (metis (no_types, lifting) imageI)
  then show ?thesis by (simp add: reconcile_eq(3)[OF rec])
qed

section \<open>Properties of loading\<close>

subsection \<open>Auxiliary facts\<close>

lemma load_fragments_seen:
  assumes "seen \<noteq> {}"
  shows "load_fragments seen dfs ps =
           (if \<forall>p \<in> set ps. set (columns p) = seen then Inr (dfs @ ps) else Inl (SystemExit 1))"
  using assms
proof (induction ps arbitrary: dfs)
  case Nil
  then show ?case by simp
next
  case (Cons p ps)
  show ?case
  proof (cases "set (columns p) = seen")
    case True
    then have "load_fragments seen dfs (p # ps) = load_fragments seen (dfs @ [p]) ps"
      by simp
    then show ?thesis using Cons.IH[OF Cons.prems, of "dfs @ [p]"] True by simp
  next
    case False
    then show ?thesis using Cons.prems by simp
  qed
qed

lemma load_fragments_mismatch:
  assumes ne: "list_all (\<lambda>df. columns df \<noteq> []) csvs"
    and diff: "a \<in> set csvs" "b \<in> set csvs" "set (columns a) \<noteq> set (columns b)"
  shows "load_fragments {} [] csvs = Inl (SystemExit 1)"
proof (cases csvs)
  case Nil
  then show ?thesis using diff by simp
next
  case (Cons p ps)
  have p: "set (columns p) \<noteq> {}" using ne Cons by simp
  have not_all: "\<not> (\<forall>q \<in> set ps. set (columns q) = set (columns p))"
  proof
    assume "\<forall>q \<in> set ps. set (columns q) = set (columns p)"
    then have "\<forall>q \<in> set csvs. set (columns q) = set (columns p)" by (simp add: Cons)
    then show False using diff by metis
  qed
  have "load_fragments {} [] csvs = load_fragments (set (columns p)) [p] ps"
    by (simp add: Cons)
  also have "\<dots> = (if \<forall>q \<in> set ps. set (columns q) = set (columns p) then Inr ([p] @ ps)
                     else Inl (SystemExit 1))"
    by (rule load_fragments_seen[OF p])
  also have "\<dots> = Inl (SystemExit 1)" using not_all by simp
  finally show ?thesis .
qed

lemma load_snapshots_seen:
  assumes "seen \<noteq> {}" and "list_all (\<lambda>f. \<exists>dt. strptime (pprefix_of (path f)) = Inr dt) ps"
    and "\<not> (\<forall>p \<in> set ps. set (rename_referrers (header p)) = seen)"
  shows "load_snapshots seen dfs ps = Inl (SystemExit 1)"
  using assms
proof (induction ps arbitrary: dfs)
  case Nil
  then show ?case by simp
next
  case (Cons p ps)
  from Cons.prems(2) obtain dt where dt: "strptime (pprefix_of (path p)) = Inr dt" by auto
  show ?case
  proof (cases "set (rename_referrers (header p)) = seen")
    case True
    then have "\<not> (\<forall>p \<in> set ps. set (rename_referrers (header p)) = seen)"
      using Cons.prems(3) by simp
    then show ?thesis using Cons.IH[OF Cons.prems(1)] Cons.prems(2) True dt
      by (simp add: Let_def)
  next
    case False
    then show ?thesis using Cons.prems(1) dt by (simp add: Let_def)
  qed
qed

lemma load_snapshots_seen_fails:
  assumes "seen \<noteq> {}"
    and "\<not> (\<forall>p \<in> set ps. set (rename_referrers (header p)) = seen)"
  shows "load_snapshots seen dfs ps = Inl (SystemExit 1) \<or> load_snapshots seen dfs ps = Inl ValueError"
  using assms
proof (induction ps arbitrary: dfs)
  case Nil
  then show ?case by simp
next
  case (Cons p ps)
  show ?case
  proof (cases "strptime (pprefix_of (path p))")
    case (Inl e)
    then have "e = ValueError"
      by (auto simp: strptime_def split: list.splits prod.splits if_splits)
    then show ?thesis using Inl by simp
  next
    case (Inr dt)
    show ?thesis
    proof (cases "set (rename_referrers (header p)) = seen")
      case True
      then have "\<not> (\<forall>p \<in> set ps. set (rename_referrers (header p)) = seen)"
        using Cons.prems(2) by simp
      then show ?thesis using Cons.IH[OF Cons.prems(1)] True Inr
        by (simp add: Let_def)
    next
      case False
      then show ?thesis using Cons.prems(1) Inr by (simp add: Let_def)
    qed
  qed
qed

lemma strptime_error: "strptime s = Inl e \<Longrightarrow> e = ValueError"
  by (auto simp: strptime_def split: list.splits prod.splits if_splits)

text \<open>
  The comparison of line 361 is skipped as long as \<^verbatim>\<open>column_names_seen\<close> is empty,
  also after a file that has no column besides its index: such a file and a file
  with columns load together.
\<close>

lemma load_fragments_empty_columns_unchecked:
  "load_fragments {} [] [\<lparr>columns = [], rows = [(20201201, Map.empty)]\<rparr>, fragment1] =
     Inr [\<lparr>columns = [], rows = [(20201201, Map.empty)]\<rparr>, fragment1]"
  by simp

lemma load_snapshots_first:
  assumes "strptime (pprefix_of (path p)) = Inr dt"
  shows "load_snapshots {} [] (p # ps) =
         load_snapshots (set (rename_referrers (header p)))
            [\<lparr>rcolumns = rename_referrers (header p), rrows = body p,
              snapshot_time = utc_localize dt\<rparr>] ps"
  using assms by (simp add: Let_def)

lemma not_all_equal_first:
  assumes "a \<in> set (p # ps)" "b \<in> set (p # ps)" "f a \<noteq> f b"
  shows "\<not> (\<forall>q \<in> set ps. f q = f p)"
proof
  assume "\<forall>q \<in> set ps. f q = f p"
  then have "\<forall>q \<in> set (p # ps). f q = f p" by simp
  then have "f a = f p" "f b = f p" using assms(1,2) by blast+
  then show False using assms(3) by simp
qed

lemma load_snapshots_mismatch:
  assumes ne: "list_all (\<lambda>f. header f \<noteq> []) files"
    and diff: "a \<in> set files" "b \<in> set files"
       "set (rename_referrers (header a)) \<noteq> set (rename_referrers (header b))"
    and ok: "list_all (\<lambda>f. \<exists>dt. strptime (pprefix_of (path f)) = Inr dt) files"
  shows "load_snapshots {} [] files = Inl (SystemExit 1)"
proof (cases files)
  case Nil
  then show ?thesis using diff by simp
next
  case (Cons p ps)
  obtain dt where dt: "strptime (pprefix_of (path p)) = Inr dt" using ok Cons by auto
  have p: "set (rename_referrers (header p)) \<noteq> {}"
    using ne Cons by (cases "header p") (simp_all add: rename_referrers_def)
  have na: "\<not> (\<forall>q \<in> set ps. set (rename_referrers (header q)) = set (rename_referrers (header p)))"
    using not_all_equal_first[of a p ps b "\<lambda>q. set (rename_referrers (header q))"] diff Cons
    by simp
  have okps: "list_all (\<lambda>f. \<exists>dt. strptime (pprefix_of (path f)) = Inr dt) ps"
    using ok Cons by simp
  show ?thesis
    unfolding Cons load_snapshots_first[OF dt]
    by (rule load_snapshots_seen[OF p okps na])
qed

lemma load_snapshots_mismatch_fails:
  assumes ne: "list_all (\<lambda>f. header f \<noteq> []) files"
    and diff: "a \<in> set files" "b \<in> set files"
       "set (rename_referrers (header a)) \<noteq> set (rename_referrers (header b))"
  shows "load_snapshots {} [] files = Inl (SystemExit 1) \<or>
         load_snapshots {} [] files = Inl ValueError"
proof (cases files)
  case Nil
  then show ?thesis using diff by simp
next
  case (Cons p ps)
  show ?thesis
  proof (cases "strptime (pprefix_of (path p))")
    case (Inl e)
    then show ?thesis using strptime_error[OF Inl] by (simp add: Cons)
  next
    case (Inr dt)
    have p: "set (rename_referrers (header p)) \<noteq> {}"
      using ne Cons by (cases "header p") (simp_all add: rename_referrers_def)
    have na: "\<not> (\<forall>q \<in> set ps. set (rename_referrers (header q)) = set (rename_referrers (header p)))"
      using not_all_equal_first[of a p ps b "\<lambda>q. set (rename_referrers (header q))"] diff Cons
      by simp
    show ?thesis
      unfolding Cons load_snapshots_first[OF Inr]
      by (rule load_snapshots_seen_fails[OF p na])
  qed
qed

lemma load_snapshots_Inr:
  "load_snapshots seen dfs0 files = Inr dfs \<Longrightarrow>
     \<exists>new. dfs = dfs0 @ new \<and> list_all2 loaded_from files new"
proof (induction files arbitrary: seen dfs0)
  case Nil
  then show ?case by simp
next
  case (Cons f files)
  from Cons.prems obtain dt where dt: "strptime (pprefix_of (path f)) = Inr dt"
    by (cases "strptime (pprefix_of (path f))") auto
  let ?df = "\<lparr>rcolumns = rename_referrers (header f), rrows = body f,
               snapshot_time = utc_localize dt\<rparr>"
  from Cons.prems dt have
    "load_snapshots (seen \<union> set (rename_referrers (header f))) (dfs0 @ [?df]) files = Inr dfs"
    by (simp add: Let_def split: if_splits)
  from Cons.IH[OF this] obtain new where new: "dfs = (dfs0 @ [?df]) @ new"
    "list_all2 loaded_from files new" by blast
  have "loaded_from f ?df" using dt by (simp add: loaded_from_def)
  then have "list_all2 loaded_from (f # files) (?df # new)" using new(2) by simp
  moreover have "dfs = dfs0 @ (?df # new)" using new(1) by simp
  ultimately show ?case by blast
qed

lemma load_snapshots_bad_name:
  assumes "f \<in> set files" and "strptime (pprefix_of (path f)) = Inl e"
  shows "\<exists>e'. load_snapshots seen dfs files = Inl e'"
  using assms(1)
proof (induction files arbitrary: seen dfs)
  case Nil
  then show ?case by simp
next
  case (Cons g files)
  show ?case
  proof (cases "strptime (pprefix_of (path g))")
    case (Inl e')
    then show ?thesis by simp
  next
    case (Inr dt)
    then have "g \<noteq> f" using assms(2) by auto
    then have "f \<in> set files" using Cons.prems by simp
    from Cons.IH[OF this] show ?thesis using Inr by (simp add: Let_def)
  qed
qed

lemma load_snapshots_prefix_bad:
  assumes "load_snapshots seen dfs ps = Inr dfs'" and "strptime (pprefix_of (path f)) = Inl e"
  shows "load_snapshots seen dfs (ps @ f # qs) = Inl e"
  using assms(1)
proof (induction ps arbitrary: seen dfs)
  case Nil
  then show ?case using assms(2) by simp
next
  case (Cons p ps)
  from Cons.prems obtain dt where dt: "strptime (pprefix_of (path p)) = Inr dt"
    by (cases "strptime (pprefix_of (path p))") auto
  let ?df = "\<lparr>rcolumns = rename_referrers (header p), rrows = body p,
               snapshot_time = utc_localize dt\<rparr>"
  from Cons.prems dt have ok: "\<not> (seen \<noteq> {} \<and> set (rename_referrers (header p)) \<noteq> seen)"
    and rest: "load_snapshots (seen \<union> set (rename_referrers (header p))) (dfs @ [?df]) ps = Inr dfs'"
    by (auto simp: Let_def split: if_splits)
  have "load_snapshots seen dfs ((p # ps) @ f # qs)
        = load_snapshots (seen \<union> set (rename_referrers (header p))) (dfs @ [?df]) (ps @ f # qs)"
    using dt ok by (auto simp: Let_def)
  also have "\<dots> = Inl e" by (rule Cons.IH[OF rest])
  finally show ?case .
qed

lemma load_snapshots_first_bad_name:
  assumes "load_snapshots {} [] ps = Inr dfs'" and "strptime (pprefix_of (path f)) = Inl e"
  shows "load_snapshots {} [] (ps @ f # qs) = Inl ValueError"
  using load_snapshots_prefix_bad[OF assms] strptime_error[OF assms(2)] by simp

lemma re_Y_digits:
  assumes "digit_between 0 9 a" "digit_between 0 9 b" "digit_between 0 9 c" "digit_between 0 9 d"
  shows "re_Y (a # b # c # d # r) = [(number [a, b, c, d], r)]"
  using assms by (simp add: number_def)

lemma re_m_digits:
  assumes "digit_between 0 9 a" "digit_between 0 9 b"
    and "1 \<le> number [a, b]" "number [a, b] \<le> 12"
  shows "\<exists>tl. re_m (a # b # r) = (number [a, b], r) # tl"
  using assms by (auto simp: re_m_def number_def digit_between_def digit_val_def)

lemma re_d_digits:
  assumes "digit_between 0 9 a" "digit_between 0 9 b"
    and "1 \<le> number [a, b]" "number [a, b] \<le> 31"
  shows "\<exists>tl. re_d (a # b # r) = (number [a, b], r) # tl"
  using assms by (auto simp: re_d_def number_def digit_between_def digit_val_def)

lemma re_H_digits:
  assumes "digit_between 0 9 a" "digit_between 0 9 b"
    and "number [a, b] \<le> 23"
  shows "\<exists>tl. re_H (a # b # r) = (number [a, b], r) # tl"
  using assms by (auto simp: re_H_def number_def digit_between_def digit_val_def)

lemma re_M_digits:
  assumes "digit_between 0 9 a" "digit_between 0 9 b"
    and "number [a, b] \<le> 59"
  shows "\<exists>tl. re_M (a # b # r) = (number [a, b], r) # tl"
  using assms by (auto simp: re_M_def number_def digit_between_def digit_val_def)

lemma re_S_digits:
  assumes "digit_between 0 9 a" "digit_between 0 9 b"
    and "number [a, b] \<le> 59"
  shows "\<exists>tl. re_S (a # b # r) = (number [a, b], r) # tl"
  using assms by (auto simp: re_S_def number_def digit_between_def digit_val_def)


lemma list17:
  assumes "length (s :: 'a list) = 17"
  shows "s = [s ! 0, s ! 1, s ! 2, s ! 3, s ! 4, s ! 5, s ! 6, s ! 7, s ! 8, s ! 9, s ! 10,
              s ! 11, s ! 12, s ! 13, s ! 14, s ! 15, s ! 16]"
proof -
  have "s = map ((!) s) [0..<length s]" by (simp add: map_nth)
  also have "[0..<length s] = [0, 1, 2, 3, 4, 5, 6, 7, 8, 9, 10, 11, 12, 13, 14, 15, 16]"
    unfolding assms by (simp add: upt_rec)
  finally show ?thesis by simp
qed

lemma regex_matches_spec_token:
  assumes dY: "digit_between 0 9 y1" "digit_between 0 9 y2" "digit_between 0 9 y3" "digit_between 0 9 y4"
    and dm: "digit_between 0 9 m1" "digit_between 0 9 m2"
    and dd: "digit_between 0 9 d1" "digit_between 0 9 d2"
    and dH: "digit_between 0 9 h1" "digit_between 0 9 h2"
    and dM: "digit_between 0 9 n1" "digit_between 0 9 n2"
    and dS: "digit_between 0 9 s1" "digit_between 0 9 s2"
    and vm: "1 \<le> number [m1, m2]" "number [m1, m2] \<le> 12"
    and vd: "1 \<le> number [d1, d2]" "number [d1, d2] \<le> 31"
    and vH: "number [h1, h2] \<le> 23"
    and vM: "number [n1, n2] \<le> 59"
    and vS: "number [s1, s2] \<le> 59"
  shows "\<exists>tl. regex_matches [y1, y2, y3, y4, CHR ''-'', m1, m2, CHR ''-'', d1, d2, CHR ''_'',
                               h1, h2, n1, n2, s1, s2]
           = (\<lparr>year = number [y1, y2, y3, y4], month = number [m1, m2], day = number [d1, d2],
               hour = number [h1, h2], minute = number [n1, n2], second = number [s1, s2]\<rparr>, [])
             # tl"
proof -
  obtain t1 where S: "re_S [s1, s2] = (number [s1, s2], []) # t1"
    using re_S_digits[OF dS vS, of "[]"] by blast
  obtain t2 where M: "re_M [n1, n2, s1, s2] = (number [n1, n2], [s1, s2]) # t2"
    using re_M_digits[OF dM vM, of "[s1, s2]"] by blast
  obtain t3 where H: "re_H [h1, h2, n1, n2, s1, s2] = (number [h1, h2], [n1, n2, s1, s2]) # t3"
    using re_H_digits[OF dH vH, of "[n1, n2, s1, s2]"] by blast
  obtain t4 where D: "re_d [d1, d2, CHR ''_'', h1, h2, n1, n2, s1, s2]
       = (number [d1, d2], [CHR ''_'', h1, h2, n1, n2, s1, s2]) # t4"
    using re_d_digits[OF dd vd, of "[CHR ''_'', h1, h2, n1, n2, s1, s2]"] by blast
  obtain t5 where Mo: "re_m [m1, m2, CHR ''-'', d1, d2, CHR ''_'', h1, h2, n1, n2, s1, s2]
       = (number [m1, m2], [CHR ''-'', d1, d2, CHR ''_'', h1, h2, n1, n2, s1, s2]) # t5"
    using re_m_digits[OF dm vm, of "[CHR ''-'', d1, d2, CHR ''_'', h1, h2, n1, n2, s1, s2]"] by blast
  have Y: "re_Y [y1, y2, y3, y4, CHR ''-'', m1, m2, CHR ''-'', d1, d2, CHR ''_'',
                 h1, h2, n1, n2, s1, s2]
       = [(number [y1, y2, y3, y4], [CHR ''-'', m1, m2, CHR ''-'', d1, d2, CHR ''_'',
                 h1, h2, n1, n2, s1, s2])]"
    by (rule re_Y_digits[OF dY])
  show ?thesis
    unfolding regex_matches_def Y by (simp add: Mo D H M S)
qed


lemma days_in_month_le: "days_in_month y m \<le> 31"
  by (simp add: days_in_month_def)

lemma strptime_spec_token:
  assumes tok: "spec_token s" and valid: "valid_datetime (token_fields s)"
  shows "strptime s = Inr (token_fields s)"
proof -
  have len: "length s = 17" using tok by (simp add: spec_token_def)
  obtain y1 y2 y3 y4 c1 m1 m2 c2 d1 d2 c3 h1 h2 n1 n2 s1 s2 where
    s: "s = [y1, y2, y3, y4, c1, m1, m2, c2, d1, d2, c3, h1, h2, n1, n2, s1, s2]"
    using list17[OF len] by blast
  from tok have dY: "digit_between 0 9 y1" "digit_between 0 9 y2" "digit_between 0 9 y3"
      "digit_between 0 9 y4"
    and dm: "digit_between 0 9 m1" "digit_between 0 9 m2"
    and dd: "digit_between 0 9 d1" "digit_between 0 9 d2"
    and dH: "digit_between 0 9 h1" "digit_between 0 9 h2"
    and dM: "digit_between 0 9 n1" "digit_between 0 9 n2"
    and dS: "digit_between 0 9 s1" "digit_between 0 9 s2"
    and c: "c1 = CHR ''-''" "c2 = CHR ''-''" "c3 = CHR ''_''"
    unfolding s spec_token_def by simp_all
  have f: "token_fields s =
      \<lparr>year = number [y1, y2, y3, y4], month = number [m1, m2], day = number [d1, d2],
       hour = number [h1, h2], minute = number [n1, n2], second = number [s1, s2]\<rparr>"
    unfolding s token_fields_def by simp
  from valid have vm: "1 \<le> number [m1, m2]" "number [m1, m2] \<le> 12"
    and vd1: "1 \<le> number [d1, d2]"
    and vd2: "number [d1, d2] \<le> days_in_month (number [y1, y2, y3, y4]) (number [m1, m2])"
    and vH: "number [h1, h2] \<le> 23"
    and vM: "number [n1, n2] \<le> 59"
    and vS: "number [s1, s2] \<le> 59"
    unfolding f valid_datetime_def by simp_all
  have vd: "1 \<le> number [d1, d2]" "number [d1, d2] \<le> 31"
    using vd1 vd2 days_in_month_le[of "number [y1, y2, y3, y4]" "number [m1, m2]"] by simp_all
  from regex_matches_spec_token[OF dY dm dd dH dM dS vm vd vH vM vS]
  obtain tl where "regex_matches s = (token_fields s, []) # tl"
    unfolding s c f[unfolded s c] by blast
  then show ?thesis using valid by (simp add: strptime_def)
qed

lemma digit_not_sep:
  assumes "digit_between 0 9 c"
  shows "c \<noteq> CHR ''_''" and "c \<noteq> CHR ''t''"
  using assms by (auto simp: digit_between_def)

lemma split_first_spec_token:
  assumes tok: "spec_token t"
  shows "split_first ''_top_referrers_snapshot.csv'' (t @ ''_top_referrers_snapshot.csv'') = t"
proof -
  have len: "length t = 17" using tok by (simp add: spec_token_def)
  obtain y1 y2 y3 y4 c1 m1 m2 c2 d1 d2 c3 h1 h2 n1 n2 s1 s2 where
    t: "t = [y1, y2, y3, y4, c1, m1, m2, c2, d1, d2, c3, h1, h2, n1, n2, s1, s2]"
    using list17[OF len] by blast
  from tok have d: "digit_between 0 9 y1" "digit_between 0 9 y2" "digit_between 0 9 y3"
      "digit_between 0 9 y4" "digit_between 0 9 m1" "digit_between 0 9 m2"
      "digit_between 0 9 d1" "digit_between 0 9 d2" "digit_between 0 9 h1" "digit_between 0 9 h2"
      "digit_between 0 9 n1" "digit_between 0 9 n2" "digit_between 0 9 s1" "digit_between 0 9 s2"
    and c: "c1 = CHR ''-''" "c2 = CHR ''-''" "c3 = CHR ''_''"
    unfolding t spec_token_def by simp_all
  note n = d[THEN digit_not_sep(1)] d[THEN digit_not_sep(2)]
  show ?thesis unfolding t c using n by simp
qed

lemma pprefix_of_spec_format:
  assumes "name_in_spec_format p"
  shows "pprefix_of p = take 17 (basename p)"
proof -
  from assms have tok: "spec_token (take 17 (basename p))"
    and suf: "drop 17 (basename p) = ''_top_referrers_snapshot.csv''"
    by (simp_all add: name_in_spec_format_def)
  have "basename p = take 17 (basename p) @ ''_top_referrers_snapshot.csv''"
    using suf by (metis append_take_drop_id)
  then have "pprefix_of p = split_first ''_top_referrers_snapshot.csv''
                  (take 17 (basename p) @ ''_top_referrers_snapshot.csv'')"
    by (simp add: pprefix_of_def)
  then show ?thesis by (simp only: split_first_spec_token[OF tok])
qed

lemma strptime_spec_format:
  assumes "name_in_spec_format p" and "valid_datetime (token_fields (take 17 (basename p)))"
  shows "strptime (pprefix_of p) = Inr (token_fields (take 17 (basename p)))"
proof -
  from assms(1) have tok: "spec_token (take 17 (basename p))"
    by (simp add: name_in_spec_format_def)
  show ?thesis
    unfolding pprefix_of_spec_format[OF assms(1)]
    by (rule strptime_spec_token[OF tok assms(2)])
qed

section \<open>Properties of the referrer ranking and table\<close>

subsection \<open>Auxiliary facts\<close>

lemma aggregate_referrers_Inr:
  assumes "aggregate_referrers h dfs0 = Inr out"
  obtains names dfa rdfs m where
    "collect_referrers dfs0 = Inr names"
    "pd_concat_snapshots (map set_time_column dfs0) = Inr dfa"
    "build_referrer_dfs dfa (set_iteration h names) = Inr rdfs"
    "build_ref_max_cu_map (rcolumns dfa) rdfs = Inr m"
    "build_df_top_cu rdfs \<lparr>tindex = [], tcolumns = []\<rparr>
        (take top_n (map fst (sorted_reverse snd m))) = Inr (df_top_cu out)"
    "ref_dfs out = map set_time_column dfs0"
    "referrer_dfs out = rdfs"
    "ref_max_cu_map out = m"
    "sorted_dict out = sorted_reverse snd m"
    "top_n_rnames out = take top_n (map fst (sorted_reverse snd m))"
  using assms unfolding aggregate_referrers_def Let_def
  by (auto split: sum.splits)

lemma collect_referrers_Inr:
  "collect_referrers dfs = Inr names \<Longrightarrow> names = map referrer (all_rows dfs)"
  by (induction dfs arbitrary: names) (auto simp: all_rows_def split: if_splits sum.splits)

lemma collect_referrers_ok:
  "list_all (\<lambda>df. ''referrer'' \<in> set (rcolumns df)) dfs \<Longrightarrow>
     collect_referrers dfs = Inr (map referrer (all_rows dfs))"
  by (induction dfs) (auto simp: all_rows_def)

lemma set_set_iteration: "set (set_iteration h names) = set names"
  by (simp add: set_iteration_def)

lemma distinct_set_iteration: "distinct (set_iteration h names)"
  by (simp add: set_iteration_def)

lemma pd_concat_snapshots_Inr:
  assumes "pd_concat_snapshots (map set_time_column dfs0) = Inr dfa"
  shows "dfs0 \<noteq> []" and "rrows dfa = timed_rows dfs0"
    and "rcolumns dfa = union_columns (map (rcolumns \<circ> set_time_column) dfs0)"
  using assms
  by (auto simp: pd_concat_snapshots_def timed_rows_def set_time_column_def comp_def
      split: if_splits)

lemma time_column_Inr:
  "time_column rs = Inr ts \<Longrightarrow> map time rs = map Some ts"
  by (induction rs arbitrary: ts) (auto split: option.splits sum.splits)

lemma time_column_ok:
  "\<forall>r \<in> set rs. time r \<noteq> None \<Longrightarrow> \<exists>ts. time_column rs = Inr ts"
  by (induction rs) (auto split: option.splits sum.splits)

lemma timed_rows_time: "r \<in> set (timed_rows dfs) \<Longrightarrow> time r \<noteq> None"
  by (auto simp: timed_rows_def)

lemma referrer_df_ok:
  assumes "rrows dfa = timed_rows dfs"
  shows "\<exists>df. referrer_df dfa n = Inr df"
proof -
  have "\<forall>r \<in> set (filter (\<lambda>r. referrer r = n) (rrows dfa)). time r \<noteq> None"
    using assms timed_rows_time by auto
  from time_column_ok[OF this] show ?thesis
    by (auto simp: referrer_df_def Let_def)
qed

lemma build_referrer_dfs_Inr:
  "build_referrer_dfs dfa names = Inr rdfs \<Longrightarrow>
     map fst rdfs = names \<and> (\<forall>(n, df) \<in> set rdfs. referrer_df dfa n = Inr df)"
  by (induction names arbitrary: rdfs) (auto split: sum.splits)

lemma build_referrer_dfs_ok:
  assumes "rrows dfa = timed_rows dfs"
  shows "\<exists>rdfs. build_referrer_dfs dfa names = Inr rdfs"
proof (induction names)
  case Nil
  then show ?case by simp
next
  case (Cons n names)
  then show ?case using referrer_df_ok[OF assms, of n] by auto
qed


lemma insort_key_map_commute:
  "insort_key f (g x) (map g xs) = map g (insort_key (\<lambda>a. f (g a)) x xs)"
  by (induction xs) auto

lemma sort_key_map_commute:
  "sort_key f (map g xs) = map g (sort_key (\<lambda>a. f (g a)) xs)"
  by (induction xs) (auto simp: insort_key_map_commute)

lemma zip_of_time_column:
  assumes "map time rs = map Some ts"
  shows "zip ts (map f rs) = map (\<lambda>r. (the (time r), f r)) rs"
  using assms
proof (induction rs arbitrary: ts)
  case Nil
  then show ?case by simp
next
  case (Cons r rs)
  then obtain t ts' where "ts = t # ts'" "time r = Some t" "map time rs = map Some ts'"
    by (cases ts) auto
  then show ?case using Cons.IH by simp
qed

lemma raw_series_timed_rows:
  "map (\<lambda>r. (the (time r), count_unique r)) (filter (\<lambda>r. referrer r = n) (timed_rows dfs))
     = raw_series dfs n"
  by (induction dfs) (auto simp: timed_rows_def raw_series_def filter_map comp_def)

lemma referrer_df_series:
  assumes "referrer_df dfa n = Inr df" and "rrows dfa = timed_rows dfs"
  shows "count_unique_series df = sort_key fst (raw_series dfs n)"
proof -
  let ?sel = "filter (\<lambda>r. referrer r = n) (timed_rows dfs)"
  from assms obtain ts where ts: "time_column ?sel = Inr ts"
    and df: "df = sort_key fst (zip ts (map (\<lambda>r. r\<lparr>time := None\<rparr>) ?sel))"
    by (auto simp: referrer_df_def Let_def split: sum.splits)
  have z: "zip ts (map (\<lambda>r. r\<lparr>time := None\<rparr>) ?sel)
           = map (\<lambda>r. (the (time r), r\<lparr>time := None\<rparr>)) ?sel"
    by (rule zip_of_time_column[OF time_column_Inr[OF ts]])
  have fg: "(\<lambda>a. fst ((\<lambda>(t, r). (t, count_unique r)) a)) = (fst :: timestamp \<times> snapshot_row \<Rightarrow> timestamp)"
    by (simp add: fun_eq_iff case_prod_unfold)
  have "count_unique_series df
        = map (\<lambda>(t, r). (t, count_unique r))
            (sort_key fst (map (\<lambda>r. (the (time r), r\<lparr>time := None\<rparr>)) ?sel))"
    by (simp add: count_unique_series_def df z)
  also have "\<dots> = sort_key fst (map (\<lambda>(t, r). (t, count_unique r))
               (map (\<lambda>r. (the (time r), r\<lparr>time := None\<rparr>)) ?sel))"
    using sort_key_map_commute[of fst "\<lambda>(t, r). (t, count_unique r)"
        "map (\<lambda>r. (the (time r), r\<lparr>time := None\<rparr>)) ?sel"]
    unfolding fg by simp
  also have "map (\<lambda>(t, r). (t, count_unique r))
               (map (\<lambda>r. (the (time r), r\<lparr>time := None\<rparr>)) ?sel)
             = map (\<lambda>r. (the (time r), count_unique r)) ?sel"
    by simp
  also have "\<dots> = raw_series dfs n" by (rule raw_series_timed_rows)
  finally show ?thesis .
qed

lemma map_fst_raw_series: "map fst (raw_series dfs n) = observation_times dfs n"
  by (induction dfs) (auto simp: raw_series_def observation_times_def comp_def)

lemma set_raw_series: "set (raw_series dfs n) = {(t, v). v \<in> observed dfs n t}"
  by (auto simp: raw_series_def observed_def)

lemma snd_raw_series:
  "snd ` set (raw_series dfs n) = count_unique ` {r \<in> set (all_rows dfs). referrer r = n}"
  by (force simp: raw_series_def all_rows_def)

lemma raw_series_nonempty: "n \<in> observed_names dfs \<Longrightarrow> raw_series dfs n \<noteq> []"
proof -
  assume "n \<in> observed_names dfs"
  then have "count_unique ` {r \<in> set (all_rows dfs). referrer r = n} \<noteq> {}"
    by (auto simp: observed_names_def)
  then have "set (raw_series dfs n) \<noteq> {}"
    unfolding snd_raw_series[symmetric] by blast
  then show ?thesis by simp
qed

lemma series_max_sorted_raw:
  assumes "n \<in> observed_names dfs"
  shows "series_max (sort_key fst (raw_series dfs n)) = Some (max_count_unique dfs n)"
proof -
  let ?s = "sort_key fst (raw_series dfs n)"
  have p: "present (map (\<lambda>(t, v). Some v) ?s) = snd ` set (raw_series dfs n)"
    by (force simp: present_def)
  have ne: "snd ` set (raw_series dfs n) \<noteq> {}"
    using raw_series_nonempty[OF assms] by simp
  show ?thesis
    using ne by (simp add: series_max_def nanmax_list_Max p max_count_unique_def snd_raw_series)
qed

lemma ref_max_cu_map_eq:
  assumes rdfs: "build_referrer_dfs dfa iter = Inr rdfs"
    and rows: "rrows dfa = timed_rows dfs"
    and m: "build_ref_max_cu_map cols rdfs = Inr m"
    and iter: "set iter \<subseteq> observed_names dfs"
  shows "m = map (\<lambda>n. (n, Some (max_count_unique dfs n))) iter"
proof -
  from build_referrer_dfs_Inr[OF rdfs]
  have fst: "map fst rdfs = iter" and each: "\<forall>(n, df) \<in> set rdfs. referrer_df dfa n = Inr df"
    by auto
  have m': "m = map (\<lambda>(rname, df). (rname, series_max (count_unique_series df))) rdfs"
    using m by (auto simp: build_ref_max_cu_map_def split: if_splits)
  have "(\<lambda>(rname, df). (rname, series_max (count_unique_series df))) p
        = (\<lambda>n. (n, Some (max_count_unique dfs n))) (fst p)" if "p \<in> set rdfs" for p
  proof -
    obtain n df where p: "p = (n, df)" by (cases p)
    have "referrer_df dfa n = Inr df" using each that p by auto
    then have s: "count_unique_series df = sort_key fst (raw_series dfs n)"
      by (rule referrer_df_series[OF _ rows])
    have "n \<in> set iter" using that p fst by force
    then have "n \<in> observed_names dfs" using iter by auto
    then show ?thesis by (simp add: p s series_max_sorted_raw)
  qed
  then have "m = map (\<lambda>p. (\<lambda>n. (n, Some (max_count_unique dfs n))) (fst p)) rdfs"
    unfolding m' by (intro map_cong) auto
  also have "\<dots> = map (\<lambda>n. (n, Some (max_count_unique dfs n))) (map fst rdfs)"
    by (simp add: comp_def)
  finally show ?thesis by (simp add: fst)
qed


lemma mset_sorted_reverse: "mset (sorted_reverse key xs) = mset xs"
  by (simp add: sorted_reverse_def)

lemma set_sorted_reverse: "set (sorted_reverse key xs) = set xs"
  by (simp add: sorted_reverse_def)

lemma distinct_sorted_reverse: "distinct (sorted_reverse key xs) = distinct xs"
  by (simp add: sorted_reverse_def)

lemma length_sorted_reverse: "length (sorted_reverse key xs) = length xs"
  by (simp add: sorted_reverse_def)

lemma sorted_reverse_descending:
  "sorted (rev (map key (sorted_reverse key xs)))"
  by (simp add: sorted_reverse_def rev_map)

lemma sorted_reverse_stable:
  "filter (\<lambda>y. key y = k) (sorted_reverse key xs) = filter (\<lambda>y. key y = k) xs"
proof -
  have "filter (\<lambda>y. key y = k) (sorted_reverse key xs)
        = rev (filter (\<lambda>y. key y = k) (sort_key key (rev xs)))"
    by (simp add: sorted_reverse_def rev_filter)
  also have "\<dots> = rev (filter (\<lambda>y. key y = k) (rev xs))"
    by (simp only: sort_key_stable)
  also have "\<dots> = filter (\<lambda>y. key y = k) xs"
    by (simp add: rev_filter)
  finally show ?thesis .
qed

lemma sorted_reverse_pairs:
  "sorted_reverse snd (map (\<lambda>n. (n, f n)) xs) = map (\<lambda>n. (n, f n)) (sorted_reverse f xs)"
proof -
  have "sort_key snd (map (\<lambda>n. (n, f n)) (rev xs))
        = map (\<lambda>n. (n, f n)) (sort_key f (rev xs))"
    using sort_key_map_commute[of snd "\<lambda>n. (n, f n)" "rev xs"] by simp
  then show ?thesis
    by (simp add: sorted_reverse_def rev_map)
qed

lemma sorted_reverse_pairs_fst:
  "map fst (sorted_reverse snd (map (\<lambda>n. (n, f n)) xs)) = sorted_reverse f xs"
  unfolding sorted_reverse_pairs by (simp add: comp_def)

lemma descending_Some:
  assumes "sorted (rev (map (\<lambda>n. Some (mx n)) (xs :: 'a list)))"
  shows "sorted_wrt (\<lambda>a b. (mx b :: int) \<le> mx a) xs"
proof -
  have "sorted_wrt (\<lambda>x y. y \<le> x) (map (\<lambda>n. Some (mx n)) xs)"
    using assms by (simp add: sorted_wrt_rev)
  then show ?thesis by (simp add: sorted_wrt_map)
qed

lemma ranking_descending:
  "sorted_wrt (\<lambda>a b. (mx b :: int) \<le> mx a) (sorted_reverse (\<lambda>n. Some (mx n)) xs)"
  by (rule descending_Some) (rule sorted_reverse_descending)

lemma ranking_stable:
  "filter (\<lambda>n. mx n = (k::int)) (sorted_reverse (\<lambda>n. Some (mx n)) xs) = filter (\<lambda>n. mx n = k) xs"
  using sorted_reverse_stable[of "\<lambda>n. Some (mx n)" "Some k" xs] by simp

lemma descending_unique:
  assumes "sorted_wrt (\<lambda>a b. (mx b :: int) \<le> mx a) xs"
    and "sorted_wrt (\<lambda>a b. mx b \<le> mx a) ys"
    and "distinct xs" "distinct ys" "set xs = set ys" "inj_on mx (set xs)"
  shows "xs = ys"
proof -
  have sx: "sorted (rev (map mx xs))" using assms(1) by (simp add: sorted_wrt_rev sorted_wrt_map)
  have sy: "sorted (rev (map mx ys))" using assms(2) by (simp add: sorted_wrt_rev sorted_wrt_map)
  have dx: "distinct (rev (map mx xs))" using assms(3,6) by (simp add: distinct_map)
  have dy: "distinct (rev (map mx ys))" using assms(4,5,6) by (simp add: distinct_map)
  have "set (rev (map mx xs)) = set (rev (map mx ys))" using assms(5) by simp
  from sorted_distinct_set_unique[OF sx dx sy dy this]
  have "map mx xs = map mx ys" by simp
  then show ?thesis using assms(5,6) by (simp add: inj_on_map_eq_map)
qed


lemma observed_names_collect: "set (map referrer (all_rows dfs)) = observed_names dfs"
  by (simp add: observed_names_def)

lemma aggregate_ranking:
  assumes "aggregate_referrers h dfs = Inr out"
  shows "sorted_dict out = map (\<lambda>n. (n, Some (max_count_unique dfs n)))
            (sorted_reverse (\<lambda>n. Some (max_count_unique dfs n))
               (set_iteration h (map referrer (all_rows dfs))))"
    and "map fst (sorted_dict out) = sorted_reverse (\<lambda>n. Some (max_count_unique dfs n))
               (set_iteration h (map referrer (all_rows dfs)))"
    and "top_n_rnames out = take top_n (map fst (sorted_dict out))"
    and "ref_max_cu_map out = map (\<lambda>n. (n, Some (max_count_unique dfs n)))
               (set_iteration h (map referrer (all_rows dfs)))"
proof -
  from assms obtain names dfa rdfs m where
    names: "collect_referrers dfs = Inr names"
    and dfa: "pd_concat_snapshots (map set_time_column dfs) = Inr dfa"
    and rdfs: "build_referrer_dfs dfa (set_iteration h names) = Inr rdfs"
    and m: "build_ref_max_cu_map (rcolumns dfa) rdfs = Inr m"
    and out: "ref_max_cu_map out = m" "sorted_dict out = sorted_reverse snd m"
      "top_n_rnames out = take top_n (map fst (sorted_reverse snd m))"
    by (rule aggregate_referrers_Inr)
  have n: "names = map referrer (all_rows dfs)" by (rule collect_referrers_Inr[OF names])
  have rows: "rrows dfa = timed_rows dfs" by (rule pd_concat_snapshots_Inr(2)[OF dfa])
  have sub: "set (set_iteration h names) \<subseteq> observed_names dfs"
    by (simp add: set_set_iteration n observed_names_def)
  have meq: "m = map (\<lambda>n. (n, Some (max_count_unique dfs n))) (set_iteration h names)"
    by (rule ref_max_cu_map_eq[OF rdfs rows m sub])
  show "sorted_dict out = map (\<lambda>n. (n, Some (max_count_unique dfs n)))
            (sorted_reverse (\<lambda>n. Some (max_count_unique dfs n))
               (set_iteration h (map referrer (all_rows dfs))))"
    by (simp only: out meq sorted_reverse_pairs n)
  show "map fst (sorted_dict out) = sorted_reverse (\<lambda>n. Some (max_count_unique dfs n))
               (set_iteration h (map referrer (all_rows dfs)))"
    by (simp only: out meq sorted_reverse_pairs_fst n)
  show "top_n_rnames out = take top_n (map fst (sorted_dict out))"
    by (simp only: out)
  show "ref_max_cu_map out = map (\<lambda>n. (n, Some (max_count_unique dfs n)))
               (set_iteration h (map referrer (all_rows dfs)))"
    by (simp only: out meq n)
qed

lemma ranking_facts:
  fixes dfs h
  defines "R \<equiv> sorted_reverse (\<lambda>n. Some (max_count_unique dfs n))
               (set_iteration h (map referrer (all_rows dfs)))"
  shows "distinct R" and "set R = observed_names dfs"
    and "length R = card (observed_names dfs)"
    and "sorted_wrt (\<lambda>a b. max_count_unique dfs b \<le> max_count_unique dfs a) R"
proof -
  show d: "distinct R" by (simp add: R_def distinct_sorted_reverse distinct_set_iteration)
  show s: "set R = observed_names dfs"
    by (simp add: R_def set_sorted_reverse set_set_iteration observed_names_def)
  show "length R = card (observed_names dfs)"
    using distinct_card[OF d] s by simp
  show "sorted_wrt (\<lambda>a b. max_count_unique dfs b \<le> max_count_unique dfs a) R"
    unfolding R_def by (rule ranking_descending)
qed

lemma take_of_descending:
  assumes "sorted_wrt P R" and "distinct R"
  shows "sorted_wrt P (take k R)" and "distinct (take k R)"
    and "\<forall>a \<in> set (take k R). \<forall>b \<in> set R - set (take k R). P a b"
proof -
  have split: "R = take k R @ drop k R" by simp
  have sw: "sorted_wrt P (take k R @ drop k R)" using assms(1) by simp
  then show "sorted_wrt P (take k R)" by (simp only: sorted_wrt_append)
  show "distinct (take k R)" using assms(2) by simp
  have "set R - set (take k R) \<subseteq> set (drop k R)"
    using split by (metis Diff_subset_conv set_append subset_refl sup_commute)
  moreover have "\<forall>a \<in> set (take k R). \<forall>b \<in> set (drop k R). P a b"
    using sw by (simp only: sorted_wrt_append) blast
  ultimately show "\<forall>a \<in> set (take k R). \<forall>b \<in> set R - set (take k R). P a b"
    by blast
qed

lemma setitem_Inl: "setitem tbl n s = Inl e \<Longrightarrow> \<not> distinct (map fst s)"
  by (auto simp: setitem_def Let_def split: if_splits)

lemma setitem_nonempty_index:
  assumes "setitem tbl n s = Inr tbl'" and "tindex tbl \<noteq> []"
  shows "tindex tbl' = tindex tbl"
    and "tcolumns tbl' = put_column n (aligned_cells (tindex tbl) s) (tcolumns tbl)"
    and "map fst s = tindex tbl \<or> distinct (map fst s)"
  using assms by (auto simp: setitem_def Let_def aligned_cells_def split: if_splits)

lemma setitem_empty:
  assumes "s \<noteq> []"
  shows "setitem \<lparr>tindex = [], tcolumns = []\<rparr> n s =
           Inr \<lparr>tindex = map fst s, tcolumns = [(n, aligned_cells (map fst s) s)]\<rparr>"
  using assms by (simp add: setitem_def Let_def aligned_cells_def put_column_def)

lemma build_df_top_cu_invariant:
  assumes "build_df_top_cu rdfs tbl rnames = Inr tbl'"
    and "tindex tbl \<noteq> []"
    and "list_all (col_ok rdfs (tindex tbl)) (tcolumns tbl)"
    and "distinct (map fst (tcolumns tbl) @ rnames)"
  shows "tindex tbl' = tindex tbl \<and> list_all (col_ok rdfs (tindex tbl)) (tcolumns tbl') \<and>
         map fst (tcolumns tbl') = map fst (tcolumns tbl) @ rnames"
  using assms
proof (induction rnames arbitrary: tbl)
  case Nil
  then show ?case by simp
next
  case (Cons n rnames)
  from Cons.prems(1) obtain df tbl1 where df: "map_of rdfs n = Some df"
    and s1: "setitem tbl n (count_unique_series df) = Inr tbl1"
    and rest: "build_df_top_cu rdfs tbl1 rnames = Inr tbl'"
    by (auto split: option.splits sum.splits)
  note si = setitem_nonempty_index[OF s1 Cons.prems(2)]
  have fresh: "n \<notin> set (map fst (tcolumns tbl))" using Cons.prems(4) by auto
  have cols1: "tcolumns tbl1 = tcolumns tbl @ [(n, aligned_cells (tindex tbl) (count_unique_series df))]"
    using si(2) fresh by (simp add: put_column_def)
  have new: "col_ok rdfs (tindex tbl) (n, aligned_cells (tindex tbl) (count_unique_series df))"
    using si(3) df by (simp add: col_ok_def)
  have ok1: "list_all (col_ok rdfs (tindex tbl1)) (tcolumns tbl1)"
    using Cons.prems(3) new by (simp add: cols1 si(1))
  have d1: "distinct (map fst (tcolumns tbl1) @ rnames)"
    using Cons.prems(4) by (simp add: cols1)
  have ne1: "tindex tbl1 \<noteq> []" using si(1) Cons.prems(2) by simp
  from Cons.IH[OF rest ne1 ok1 d1] show ?case
    by (simp add: si(1) cols1)
qed

lemma aligned_cells_props:
  assumes "map fst s = idx \<or> distinct (map fst s)"
  shows "length (aligned_cells idx s) = length idx"
    and "i < length idx \<Longrightarrow> (aligned_cells idx s ! i = None) = (idx ! i \<notin> fst ` set s)"
    and "i < length idx \<Longrightarrow> aligned_cells idx s ! i = Some v \<Longrightarrow> (idx ! i, v) \<in> set s"
proof -
  show "length (aligned_cells idx s) = length idx"
    by (auto simp: aligned_cells_def dest: arg_cong[where f = length])
  show "(aligned_cells idx s ! i = None) = (idx ! i \<notin> fst ` set s)" if i: "i < length idx"
  proof (cases "map fst s = idx")
    case True
    then have len: "length s = length idx" by (auto dest: arg_cong[where f = length])
    have "idx ! i = fst (s ! i)" using True i len by (metis nth_map)
    then have "idx ! i \<in> fst ` set s" using i len by simp
    then show ?thesis using True i len by (simp add: aligned_cells_def case_prod_unfold)
  next
    case False
    then show ?thesis using i by (simp add: aligned_cells_def map_of_eq_None_iff)
  qed
  show "(idx ! i, v) \<in> set s" if i: "i < length idx" and v: "aligned_cells idx s ! i = Some v"
  proof (cases "map fst s = idx")
    case True
    then have len: "length s = length idx" by (auto dest: arg_cong[where f = length])
    have "idx ! i = fst (s ! i)" using True i len by (metis nth_map)
    moreover have "v = snd (s ! i)" using v True i len by (simp add: aligned_cells_def case_prod_unfold)
    ultimately have "(idx ! i, v) = s ! i" by simp
    then show ?thesis using i len by (metis nth_mem)
  next
    case False
    then have "map_of s (idx ! i) = Some v" using v i by (simp add: aligned_cells_def)
    then show ?thesis by (rule map_of_SomeD)
  qed
qed

lemma filter_distinct_key:
  "distinct (map f xs) \<Longrightarrow> length (filter (\<lambda>x. f x = k) xs) \<le> 1"
proof (induction xs)
  case Nil
  then show ?case by simp
next
  case (Cons x xs)
  show ?case
  proof (cases "f x = k")
    case True
    then have "k \<notin> f ` set xs" using Cons.prems by auto
    then have "filter (\<lambda>x. f x = k) xs = []" by (auto simp: filter_empty_conv)
    then show ?thesis using True by simp
  next
    case False
    then show ?thesis using Cons by simp
  qed
qed

lemma set_observation_times: "set (observation_times dfs n) \<subseteq> snapshot_time ` set dfs"
  by (auto simp: observation_times_def)

lemma distinct_observation_times:
  assumes "distinct (map snapshot_time dfs)"
    and "list_all (\<lambda>df. distinct (map referrer (rrows df))) dfs"
  shows "distinct (observation_times dfs n)"
  using assms
proof (induction dfs)
  case Nil
  then show ?case by (simp add: observation_times_def)
next
  case (Cons df dfs)
  let ?sel = "filter (\<lambda>r. referrer r = n) (rrows df)"
  have o: "observation_times (df # dfs) n = map (\<lambda>r. snapshot_time df) ?sel @ observation_times dfs n"
    by (simp add: observation_times_def)
  have "distinct (map referrer (rrows df))" using Cons.prems(2) by simp
  then have "length ?sel \<le> 1" by (rule filter_distinct_key)
  then have d1: "distinct (map (\<lambda>r. snapshot_time df) ?sel)"
    by (cases ?sel) auto
  have d2: "distinct (observation_times dfs n)" using Cons by simp
  have "snapshot_time df \<notin> snapshot_time ` set dfs" using Cons.prems(1) by simp
  then have "snapshot_time df \<notin> set (observation_times dfs n)"
    using set_observation_times by blast
  then have "set (map (\<lambda>r. snapshot_time df) ?sel) \<inter> set (observation_times dfs n) = {}"
    by auto
  then show ?case unfolding o using d1 d2 by (simp only: distinct_append)
qed

lemma map_fst_sort_key_fst: "map fst (sort_key fst xs) = sort (map fst xs)"
  using sort_key_map_commute[of "\<lambda>x. x" fst xs] by simp

lemma distinct_sorted_series:
  "distinct (map fst (sort_key fst (raw_series dfs n))) = distinct (observation_times dfs n)"
  by (simp add: map_fst_sort_key_fst map_fst_raw_series)

lemma build_df_top_cu_ok:
  assumes "\<forall>n \<in> set rnames. \<exists>df. map_of rdfs n = Some df \<and> distinct (map fst (count_unique_series df))"
  shows "\<exists>tbl'. build_df_top_cu rdfs tbl rnames = Inr tbl'"
  using assms
proof (induction rnames arbitrary: tbl)
  case Nil
  then show ?case by simp
next
  case (Cons n rnames)
  then obtain df where df: "map_of rdfs n = Some df" "distinct (map fst (count_unique_series df))"
    by auto
  obtain tbl1 where s: "setitem tbl n (count_unique_series df) = Inr tbl1"
    using setitem_Inl[of tbl n "count_unique_series df"] df(2)
    by (cases "setitem tbl n (count_unique_series df)") auto
  from Cons.IH[of tbl1] Cons.prems obtain tbl' where "build_df_top_cu rdfs tbl1 rnames = Inr tbl'"
    by auto
  then show ?case using df(1) s by simp
qed

lemma map_of_rdfs:
  assumes "build_referrer_dfs dfa iter = Inr rdfs" and "n \<in> set iter"
  shows "\<exists>df. map_of rdfs n = Some df \<and> referrer_df dfa n = Inr df"
proof -
  from build_referrer_dfs_Inr[OF assms(1)]
  have fst: "map fst rdfs = iter" and each: "\<forall>(n, df) \<in> set rdfs. referrer_df dfa n = Inr df"
    by auto
  have "n \<in> fst ` set rdfs" using assms(2) fst by (metis set_map)
  then obtain df where df: "map_of rdfs n = Some df"
    by (cases "map_of rdfs n") (auto simp: map_of_eq_None_iff)
  then have "(n, df) \<in> set rdfs" by (rule map_of_SomeD)
  then have "referrer_df dfa n = Inr df" using each by auto
  with df show ?thesis by blast
qed

lemma set_union_columns_snapshots:
  "set (union_columns (map f dfs)) = (\<Union>df \<in> set dfs. set (f df))"
  by (simp add: set_union_columns)

lemma aggregate_referrers_ok:
  assumes "wf_snapshots dfs"
  shows "\<exists>out. aggregate_referrers h dfs = Inr out"
proof -
  from assms have ne: "dfs \<noteq> []"
    and cols: "list_all (\<lambda>df. ''referrer'' \<in> set (rcolumns df) \<and> ''count_unique'' \<in> set (rcolumns df)) dfs"
    and dt: "distinct (map snapshot_time dfs)"
    and dn: "list_all (\<lambda>df. distinct (map referrer (rrows df))) dfs"
    by (simp_all add: wf_snapshots_def)
  let ?names = "map referrer (all_rows dfs)"
  let ?iter = "set_iteration h ?names"
  have c: "collect_referrers dfs = Inr ?names"
    using cols by (intro collect_referrers_ok) (simp add: list_all_iff)
  obtain dfa where dfa: "pd_concat_snapshots (map set_time_column dfs) = Inr dfa"
    using ne by (simp add: pd_concat_snapshots_def)
  note d = pd_concat_snapshots_Inr[OF dfa]
  obtain rdfs where rdfs: "build_referrer_dfs dfa ?iter = Inr rdfs"
    using build_referrer_dfs_ok[OF d(2)] by blast
  obtain df0 where "df0 \<in> set dfs" using ne by (cases dfs) auto
  then have "''count_unique'' \<in> set (rcolumns (set_time_column df0))"
    using cols by (auto simp: list_all_iff set_time_column_def)
  then have cu: "''count_unique'' \<in> set (rcolumns dfa)"
    using \<open>df0 \<in> set dfs\<close> unfolding d(3) set_union_columns_snapshots by (auto simp: comp_def)
  then obtain m where m: "build_ref_max_cu_map (rcolumns dfa) rdfs = Inr m"
    by (simp add: build_ref_max_cu_map_def)
  have sub: "set ?iter \<subseteq> observed_names dfs"
    by (simp add: set_set_iteration observed_names_def)
  have meq: "m = map (\<lambda>n. (n, Some (max_count_unique dfs n))) ?iter"
    by (rule ref_max_cu_map_eq[OF rdfs d(2) m sub])
  let ?rnames = "take top_n (map fst (sorted_reverse snd m))"
  have rn: "set ?rnames \<subseteq> set ?iter"
  proof -
    have "set ?rnames \<subseteq> set (map fst (sorted_reverse snd m))" by (rule set_take_subset)
    also have "\<dots> = set ?iter" by (simp only: meq sorted_reverse_pairs_fst set_sorted_reverse)
    finally show ?thesis .
  qed
  have "\<forall>n \<in> set ?rnames. \<exists>df. map_of rdfs n = Some df \<and> distinct (map fst (count_unique_series df))"
  proof
    fix n assume "n \<in> set ?rnames"
    then have "n \<in> set ?iter" using rn by blast
    from map_of_rdfs[OF rdfs this] obtain df where df: "map_of rdfs n = Some df"
      "referrer_df dfa n = Inr df" by blast
    have "count_unique_series df = sort_key fst (raw_series dfs n)"
      by (rule referrer_df_series[OF df(2) d(2)])
    then have "distinct (map fst (count_unique_series df))"
      using distinct_observation_times[OF dt dn, of n] by (simp add: distinct_sorted_series)
    with df(1) show "\<exists>df. map_of rdfs n = Some df \<and> distinct (map fst (count_unique_series df))"
      by blast
  qed
  from build_df_top_cu_ok[OF this] obtain tbl where
    tbl: "build_df_top_cu rdfs \<lparr>tindex = [], tcolumns = []\<rparr> ?rnames = Inr tbl" by blast
  show ?thesis
    unfolding aggregate_referrers_def Let_def by (simp add: c dfa rdfs m tbl)
qed


lemma top_n_rnames_facts:
  assumes "aggregate_referrers h dfs = Inr out"
  shows "distinct (top_n_rnames out) \<and> set (top_n_rnames out) \<subseteq> observed_names dfs \<and>
      length (top_n_rnames out) = min 5 (card (observed_names dfs)) \<and>
      sorted_wrt (\<lambda>a b. max_count_unique dfs b \<le> max_count_unique dfs a) (top_n_rnames out) \<and>
      (\<forall>a \<in> set (top_n_rnames out). \<forall>b \<in> observed_names dfs - set (top_n_rnames out).
          max_count_unique dfs b \<le> max_count_unique dfs a)"
proof -
  let ?R = "sorted_reverse (\<lambda>n. Some (max_count_unique dfs n))
               (set_iteration h (map referrer (all_rows dfs)))"
  have t: "top_n_rnames out = take 5 ?R"
    using aggregate_ranking(2,3)[OF assms] by (simp add: top_n_def)
  note f = ranking_facts[of dfs h]
  note k = take_of_descending[OF f(4) f(1), of 5]
  have "set (take 5 ?R) \<subseteq> set ?R" by (rule set_take_subset)
  then have sub: "set (top_n_rnames out) \<subseteq> observed_names dfs" by (simp only: t f(2))
  have len: "length (top_n_rnames out) = min 5 (card (observed_names dfs))"
    by (simp add: t f(3) min.commute)
  show ?thesis using k sub len unfolding t f(2) by blast
qed



lemma fst_set_raw_series: "fst ` set (raw_series dfs n) = set (observation_times dfs n)"
  using map_fst_raw_series[of dfs n] by (metis set_map)

lemma aggregate_table:
  assumes run: "aggregate_referrers h dfs = Inr out"
    and top: "top_n_rnames out = n0 # rest"
  shows "tindex (df_top_cu out) = sort (observation_times dfs n0)"
    and "map fst (tcolumns (df_top_cu out)) = top_n_rnames out"
    and "\<forall>(n, cells) \<in> set (tcolumns (df_top_cu out)).
           length cells = length (tindex (df_top_cu out)) \<and>
           (\<forall>i < length (tindex (df_top_cu out)).
              (cells ! i = None) = (tindex (df_top_cu out) ! i \<notin> set (observation_times dfs n)) \<and>
              (\<forall>v. cells ! i = Some v \<longrightarrow> v \<in> observed dfs n (tindex (df_top_cu out) ! i)))"
proof -
  from run obtain names dfa rdfs m where
    names: "collect_referrers dfs = Inr names"
    and dfa: "pd_concat_snapshots (map set_time_column dfs) = Inr dfa"
    and rdfs: "build_referrer_dfs dfa (set_iteration h names) = Inr rdfs"
    and m: "build_ref_max_cu_map (rcolumns dfa) rdfs = Inr m"
    and tbl: "build_df_top_cu rdfs \<lparr>tindex = [], tcolumns = []\<rparr>
        (take top_n (map fst (sorted_reverse snd m))) = Inr (df_top_cu out)"
    and tn: "top_n_rnames out = take top_n (map fst (sorted_reverse snd m))"
    by (rule aggregate_referrers_Inr)
  let ?T = "df_top_cu out"
  have rows: "rrows dfa = timed_rows dfs" by (rule pd_concat_snapshots_Inr(2)[OF dfa])
  have series: "count_unique_series df = sort_key fst (raw_series dfs n)"
    if "map_of rdfs n = Some df" for n df
  proof -
    have "(n, df) \<in> set rdfs" using that by (rule map_of_SomeD)
    then have "referrer_df dfa n = Inr df" using build_referrer_dfs_Inr[OF rdfs] by auto
    then show ?thesis by (rule referrer_df_series[OF _ rows])
  qed
  have dist: "distinct (n0 # rest)"
    using top_n_rnames_facts[OF run] top by simp
  have n0: "n0 \<in> observed_names dfs"
    using top_n_rnames_facts[OF run] top by simp
  from tbl obtain df0 tbl1 where df0: "map_of rdfs n0 = Some df0"
    and s1: "setitem \<lparr>tindex = [], tcolumns = []\<rparr> n0 (count_unique_series df0) = Inr tbl1"
    and rest: "build_df_top_cu rdfs tbl1 rest = Inr ?T"
    unfolding tn[symmetric] top by (auto split: option.splits sum.splits)
  let ?s0 = "count_unique_series df0"
  have s0: "?s0 = sort_key fst (raw_series dfs n0)" by (rule series[OF df0])
  have "length ?s0 = length (raw_series dfs n0)" by (simp add: s0)
  then have s0ne: "?s0 \<noteq> []" using raw_series_nonempty[OF n0] by auto
  have tbl1: "tbl1 = \<lparr>tindex = map fst ?s0, tcolumns = [(n0, aligned_cells (map fst ?s0) ?s0)]\<rparr>"
    using s1 setitem_empty[OF s0ne, of n0] by simp
  have i1: "tindex tbl1 \<noteq> []" using s0ne by (simp add: tbl1)
  have ok1: "list_all (col_ok rdfs (tindex tbl1)) (tcolumns tbl1)"
    using df0 by (simp add: tbl1 col_ok_def)
  have d1: "distinct (map fst (tcolumns tbl1) @ rest)" using dist by (simp add: tbl1)
  from build_df_top_cu_invariant[OF rest i1 ok1 d1]
  have idx: "tindex ?T = map fst ?s0"
    and ok: "list_all (col_ok rdfs (map fst ?s0)) (tcolumns ?T)"
    and nm: "map fst (tcolumns ?T) = n0 # rest"
    by (simp_all add: tbl1)
  show "tindex ?T = sort (observation_times dfs n0)"
    by (simp add: idx s0 map_fst_sort_key_fst map_fst_raw_series)
  show "map fst (tcolumns ?T) = top_n_rnames out" by (simp add: nm top)
  show "\<forall>(n, cells) \<in> set (tcolumns ?T).
           length cells = length (tindex ?T) \<and>
           (\<forall>i < length (tindex ?T).
              (cells ! i = None) = (tindex ?T ! i \<notin> set (observation_times dfs n)) \<and>
              (\<forall>v. cells ! i = Some v \<longrightarrow> v \<in> observed dfs n (tindex ?T ! i)))"
  proof (intro ballI, clarify)
    fix n cells
    assume "(n, cells) \<in> set (tcolumns ?T)"
    then have "col_ok rdfs (map fst ?s0) (n, cells)" using ok by (auto simp: list_all_iff)
    then obtain df where df: "map_of rdfs n = Some df"
      and cells: "cells = aligned_cells (tindex ?T) (count_unique_series df)"
      and al: "map fst (count_unique_series df) = tindex ?T \<or> distinct (map fst (count_unique_series df))"
      by (auto simp: col_ok_def idx)
    let ?s = "count_unique_series df"
    have s: "?s = sort_key fst (raw_series dfs n)" by (rule series[OF df])
    have sets: "set ?s = {(t, v). v \<in> observed dfs n t}" by (simp add: s set_raw_series)
    have fsts: "fst ` set ?s = set (observation_times dfs n)"
      by (simp add: s fst_set_raw_series)
    note p = aligned_cells_props[OF al]
    show "length cells = length (tindex ?T) \<and>
           (\<forall>i < length (tindex ?T).
              (cells ! i = None) = (tindex ?T ! i \<notin> set (observation_times dfs n)) \<and>
              (\<forall>v. cells ! i = Some v \<longrightarrow> v \<in> observed dfs n (tindex ?T ! i)))"
    proof (intro conjI allI impI)
      show "length cells = length (tindex ?T)" by (simp add: cells p(1))
    next
      fix i assume "i < length (tindex ?T)"
      then show "(cells ! i = None) = (tindex ?T ! i \<notin> set (observation_times dfs n))"
        using p(2)[of i] by (simp add: cells fsts)
    next
      fix i v assume "i < length (tindex ?T)" and "cells ! i = Some v"
      then have "(tindex ?T ! i, v) \<in> set ?s" using p(3)[of i v] by (simp add: cells)
      then show "v \<in> observed dfs n (tindex ?T ! i)" by (simp add: sets)
    qed
  qed
qed

lemma max_count_unique_code:
  "max_count_unique dfs n = Max (set (map count_unique (filter (\<lambda>r. referrer r = n) (all_rows dfs))))"
  by (simp add: max_count_unique_def)

section \<open>Properties of the store\<close>

lemma reconcile_in_store_Inr:
  assumes "reconcile_in_store store dfs = Inr (store', dfa, agg)"
  shows "\<forall>a < length store. store' ! a = store ! a"
    and "dfa = length store" and "agg = length store + 1" and "length store' = length store + 2"
    and "reconcile (map ((!) store) dfs) = Inr (store' ! agg)"
  using assms
  by (auto simp: reconcile_in_store_def reconcile_def alloc_def nth_append Let_def
      split: sum.splits)

lemma reconcile_in_store_ok:
  assumes "dfs \<noteq> []"
  shows "\<exists>r. reconcile_in_store store dfs = Inr r"
  using assms
  by (simp add: reconcile_in_store_def pd_concat_def alloc_def Let_def)


lemma set_time_column_idem: "set_time_column (set_time_column s) = set_time_column s"
  by (simp add: set_time_column_def comp_def)

lemma with_time_idem: "with_time (with_time x) = with_time x"
  by (cases x) (simp_all add: set_time_column_idem)

lemma length_fold_set_time_at: "length (fold set_time_at as store) = length store"
  by (induction as arbitrary: store) (simp_all add: set_time_at_def)

lemma nth_fold_set_time_at:
  "a < length store \<Longrightarrow>
     fold set_time_at as store ! a = (if a \<in> set as then with_time (store ! a) else store ! a)"
proof (induction as arbitrary: store)
  case Nil
  then show ?case by simp
next
  case (Cons x xs)
  have len: "a < length (set_time_at x store)" using Cons.prems by (simp add: set_time_at_def)
  have step: "set_time_at x store ! a = (if a = x then with_time (store ! a) else store ! a)"
    using Cons.prems by (simp add: set_time_at_def nth_list_update)
  show ?case
    using Cons.IH[OF len] step by (auto simp: with_time_idem)
qed

lemma loaded_at_Inr:
  "loaded_at store as = Inr ss \<Longrightarrow> list_all2 (\<lambda>a s. store ! a = Loaded s) as ss"
  by (induction as arbitrary: ss) (auto split: dataframe.splits sum.splits)

lemma loaded_at_intro:
  "list_all2 (\<lambda>a s. store ! a = Loaded s) as ss \<Longrightarrow> loaded_at store as = Inr ss"
  by (induction as ss rule: list_all2_induct) auto

lemma loaded_at_after:
  assumes valid: "list_all (\<lambda>a. a < length store) dfs"
    and l: "loaded_at store dfs = Inr snaps0"
  shows "loaded_at (fold set_time_at dfs store) dfs = Inr (map set_time_column snaps0)"
proof (rule loaded_at_intro)
  have "list_all2 (\<lambda>a s. store ! a = Loaded s) dfs snaps0" by (rule loaded_at_Inr[OF l])
  then have "list_all2 (\<lambda>a s. a \<in> set dfs \<and> store ! a = Loaded s) dfs snaps0"
    by (auto simp: list_all2_conv_all_nth)
  then have "list_all2 (\<lambda>a s. fold set_time_at dfs store ! a = Loaded (set_time_column s))
                 dfs snaps0"
  proof (rule list_all2_mono)
    fix a s
    assume a: "a \<in> set dfs \<and> store ! a = Loaded s"
    then have "a < length store" using valid by (auto simp: list_all_iff)
    then show "fold set_time_at dfs store ! a = Loaded (set_time_column s)"
      using a by (simp add: nth_fold_set_time_at)
  qed
  then show "list_all2 (\<lambda>a s. fold set_time_at dfs store ! a = Loaded s) dfs
                 (map set_time_column snaps0)"
    by (simp add: list_all2_map2)
qed

lemma alloc_all_eq:
  "alloc_all store vs = (store @ vs, [length store ..< length store + length vs])"
proof (induction vs arbitrary: store)
  case Nil
  then show ?case by simp
next
  case (Cons v vs)
  have "[length store ..< length store + length (v # vs)]
          = length store # [Suc (length store) ..< Suc (length store) + length vs]"
    by (simp add: upt_rec)
  then show ?case using Cons.IH[of "store @ [v]"] by (simp add: alloc_def)
qed


lemma aggregate_in_store_Inr:
  assumes valid: "list_all (\<lambda>a. a < length store) dfs"
    and run: "aggregate_in_store h store dfs = Inr (store', r)"
  shows "\<exists>snaps0 out v.
           loaded_at store dfs = Inr snaps0 \<and>
           aggregate_referrers h snaps0 = Inr out \<and>
           pd_concat_snapshots (ref_dfs out) = Inr v \<and>
           store' = fold set_time_at dfs store @ [Concatenated v]
                      @ map (\<lambda>(rname, df). PerReferrer df) (referrer_dfs out)
                      @ [TopTable (df_top_cu out)] \<and>
           s_dfa r = length store \<and>
           s_referrer_dfs r = zip (map fst (referrer_dfs out))
               [length store + 1 ..< length store + 1 + length (referrer_dfs out)] \<and>
           s_top_n_rnames r = top_n_rnames out \<and>
           s_df_top_cu r = length store + 1 + length (referrer_dfs out)"
proof -
  from run obtain snaps0 where l0: "loaded_at store dfs = Inr snaps0"
    by (cases "loaded_at store dfs") (auto simp: aggregate_in_store_def)
  note l1 = loaded_at_after[OF valid l0]
  from run l0 obtain names where names: "collect_referrers snaps0 = Inr names"
    by (cases "collect_referrers snaps0") (auto simp: aggregate_in_store_def)
  from run l0 names l1 obtain v where v: "pd_concat_snapshots (map set_time_column snaps0) = Inr v"
    by (cases "pd_concat_snapshots (map set_time_column snaps0)")
       (auto simp: aggregate_in_store_def Let_def)
  from run l0 names l1 v obtain rdfs where
    rdfs: "build_referrer_dfs v (set_iteration h names) = Inr rdfs"
    by (cases "build_referrer_dfs v (set_iteration h names)")
       (auto simp: aggregate_in_store_def Let_def alloc_def)
  from run l0 names l1 v rdfs obtain m where m: "build_ref_max_cu_map (rcolumns v) rdfs = Inr m"
    by (cases "build_ref_max_cu_map (rcolumns v) rdfs")
       (auto simp: aggregate_in_store_def Let_def alloc_def alloc_all_eq)
  let ?rnames = "take top_n (map fst (sorted_reverse snd m))"
  from run l0 names l1 v rdfs m obtain t where
    t: "build_df_top_cu rdfs \<lparr>tindex = [], tcolumns = []\<rparr> ?rnames = Inr t"
    by (cases "build_df_top_cu rdfs \<lparr>tindex = [], tcolumns = []\<rparr> ?rnames")
       (auto simp: aggregate_in_store_def Let_def alloc_def alloc_all_eq)
  let ?out = "\<lparr>ref_dfs = map set_time_column snaps0, referrer_dfs = rdfs,
               ref_max_cu_map = m, sorted_dict = sorted_reverse snd m,
               top_n_rnames = ?rnames, df_top_cu = t\<rparr>"
  have out: "aggregate_referrers h snaps0 = Inr ?out"
    by (simp add: aggregate_referrers_def Let_def names v rdfs m t)
  have len1: "length (fold set_time_at dfs store) = length store"
    by (rule length_fold_set_time_at)
  from run have res: "store' = fold set_time_at dfs store @ [Concatenated v]
                      @ map (\<lambda>(rname, df). PerReferrer df) rdfs @ [TopTable t]"
    and r: "r = \<lparr>s_dfa = length store,
                 s_referrer_dfs = zip (map fst rdfs)
                    [length store + 1 ..< length store + 1 + length rdfs],
                 s_top_n_rnames = ?rnames,
                 s_df_top_cu = length store + 1 + length rdfs\<rparr>"
    by (simp_all add: aggregate_in_store_def Let_def l0 names l1 v rdfs m t alloc_def
        alloc_all_eq len1 list_update_append)
  show ?thesis
    by (intro exI[of _ snaps0] exI[of _ ?out] exI[of _ v]) (simp add: l0 out v res r)
qed


lemma loaded_at_cong:
  "\<forall>a \<in> set as. s1 ! a = s2 ! a \<Longrightarrow> loaded_at s1 as = loaded_at s2 as"
  by (induction as) (auto split: dataframe.splits)

lemma store_layout:
  assumes "store' = S1 @ [C] @ P @ [T]" and "length S1 = n"
  shows "a < n \<Longrightarrow> store' ! a = S1 ! a"
    and "store' ! n = C"
    and "i < length P \<Longrightarrow> store' ! (n + 1 + i) = P ! i"
    and "store' ! (n + 1 + length P) = T"
    and "length store' = n + length P + 2"
  using assms by (auto simp: nth_append)

lemma aggregate_in_store_effects:
  assumes valid: "list_all (\<lambda>a. a < length store) dfs"
    and run: "aggregate_in_store h store dfs = Inr (store', r)"
  shows "\<exists>snaps0 out. loaded_at store dfs = Inr snaps0 \<and>
            aggregate_referrers h snaps0 = Inr out \<and>
            loaded_at store' dfs = Inr (ref_dfs out) \<and>
            s_top_n_rnames r = top_n_rnames out \<and>
            store' ! s_df_top_cu r = TopTable (df_top_cu out) \<and>
            map fst (s_referrer_dfs r) = map fst (referrer_dfs out) \<and>
            map (\<lambda>(rname, a). store' ! a) (s_referrer_dfs r)
              = map (\<lambda>(rname, df). PerReferrer df) (referrer_dfs out) \<and>
            (\<exists>v. pd_concat_snapshots (ref_dfs out) = Inr v \<and> store' ! s_dfa r = Concatenated v)"
    and "\<forall>a \<in> set dfs. \<exists>s. store ! a = Loaded s \<and> store' ! a = Loaded (set_time_column s)"
    and "\<forall>a < length store. a \<notin> set dfs \<longrightarrow> store' ! a = store ! a"
    and "length store \<le> s_dfa r \<and> s_dfa r < length store'"
    and "length store \<le> s_df_top_cu r \<and> s_df_top_cu r < length store'"
    and "\<forall>a \<in> snd ` set (s_referrer_dfs r). length store \<le> a \<and> a < length store'"
    and "distinct (s_dfa r # map snd (s_referrer_dfs r) @ [s_df_top_cu r])"
proof -
  from aggregate_in_store_Inr[OF valid run] obtain snaps0 out v where
    l0: "loaded_at store dfs = Inr snaps0"
    and out: "aggregate_referrers h snaps0 = Inr out"
    and v: "pd_concat_snapshots (ref_dfs out) = Inr v"
    and st: "store' = fold set_time_at dfs store @ [Concatenated v]
                      @ map (\<lambda>(rname, df). PerReferrer df) (referrer_dfs out)
                      @ [TopTable (df_top_cu out)]"
    and dfa: "s_dfa r = length store"
    and rd: "s_referrer_dfs r = zip (map fst (referrer_dfs out))
               [length store + 1 ..< length store + 1 + length (referrer_dfs out)]"
    and tn: "s_top_n_rnames r = top_n_rnames out"
    and tb: "s_df_top_cu r = length store + 1 + length (referrer_dfs out)"
    by blast
  let ?n = "length store"
  let ?P = "map (\<lambda>(rname, df). PerReferrer df) (referrer_dfs out)"
  let ?k = "length (referrer_dfs out)"
  have len1: "length (fold set_time_at dfs store) = ?n" by (rule length_fold_set_time_at)
  note lay = store_layout[OF st len1]
  have lenP: "length ?P = ?k" by simp
  have old: "store' ! a = (if a \<in> set dfs then with_time (store ! a) else store ! a)"
    if "a < ?n" for a
    using lay(1)[OF that] nth_fold_set_time_at[OF that, of dfs] by simp
  have in_dfs: "a < ?n" if "a \<in> set dfs" for a
    using valid that by (auto simp: list_all_iff)
  have ref: "ref_dfs out = map set_time_column snaps0"
    using out by (rule aggregate_referrers_Inr)
  have "loaded_at store' dfs = loaded_at (fold set_time_at dfs store) dfs"
    by (rule loaded_at_cong) (auto simp: lay(1) in_dfs)
  then have l': "loaded_at store' dfs = Inr (ref_dfs out)"
    by (simp add: loaded_at_after[OF valid l0] ref)
  have tbl: "store' ! s_df_top_cu r = TopTable (df_top_cu out)"
    using lay(4) by (simp add: tb)
  have cat: "store' ! s_dfa r = Concatenated v" using lay(2) by (simp add: dfa)
  have lz: "length (map fst (referrer_dfs out)) = length [?n + 1 ..< ?n + 1 + ?k]"
    by (simp only: length_map length_upt add_diff_cancel_left')
  have names: "map fst (s_referrer_dfs r) = map fst (referrer_dfs out)"
    unfolding rd by (rule map_fst_zip[OF lz])
  have lenA: "length [?n + 1 ..< ?n + 1 + ?k] = ?k"
    by (simp only: length_upt add_diff_cancel_left')
  have lens: "length (s_referrer_dfs r) = ?k"
    unfolding rd by (simp only: length_zip length_map lenA min.idem)
  have objs: "map (\<lambda>(rname, a). store' ! a) (s_referrer_dfs r) = ?P"
  proof (rule nth_equalityI)
    show "length (map (\<lambda>(rname, a). store' ! a) (s_referrer_dfs r)) = length ?P"
      by (simp only: length_map lens)
  next
    fix i assume "i < length (map (\<lambda>(rname, a). store' ! a) (s_referrer_dfs r))"
    then have i: "i < ?k" by (simp only: length_map lens)
    have "[?n + 1 ..< ?n + 1 + ?k] ! i = ?n + 1 + i"
      using i by (simp only: nth_upt add_less_cancel_left)
    then have "s_referrer_dfs r ! i = (fst (referrer_dfs out ! i), ?n + 1 + i)"
      unfolding rd using i by (simp only: nth_zip length_map lenA nth_map)
    then have "map (\<lambda>(rname, a). store' ! a) (s_referrer_dfs r) ! i = store' ! (?n + 1 + i)"
      using i lens by (simp only: nth_map case_prod_conv)
    also have "\<dots> = ?P ! i" using lay(3)[of i] i by (simp only: lenP)
    finally show "map (\<lambda>(rname, a). store' ! a) (s_referrer_dfs r) ! i = ?P ! i" .
  qed
  show "\<exists>snaps0 out. loaded_at store dfs = Inr snaps0 \<and>
            aggregate_referrers h snaps0 = Inr out \<and>
            loaded_at store' dfs = Inr (ref_dfs out) \<and>
            s_top_n_rnames r = top_n_rnames out \<and>
            store' ! s_df_top_cu r = TopTable (df_top_cu out) \<and>
            map fst (s_referrer_dfs r) = map fst (referrer_dfs out) \<and>
            map (\<lambda>(rname, a). store' ! a) (s_referrer_dfs r)
              = map (\<lambda>(rname, df). PerReferrer df) (referrer_dfs out) \<and>
            (\<exists>v. pd_concat_snapshots (ref_dfs out) = Inr v \<and> store' ! s_dfa r = Concatenated v)"
    using l0 out l' tn tbl names objs v cat by blast
  show "\<forall>a \<in> set dfs. \<exists>s. store ! a = Loaded s \<and> store' ! a = Loaded (set_time_column s)"
  proof
    fix a assume a: "a \<in> set dfs"
    have "list_all2 (\<lambda>a s. store ! a = Loaded s) dfs snaps0" by (rule loaded_at_Inr[OF l0])
    then obtain s where s: "store ! a = Loaded s"
      using a by (auto simp: list_all2_conv_all_nth in_set_conv_nth)
    then have "store' ! a = Loaded (set_time_column s)"
      using old[OF in_dfs[OF a]] a by simp
    with s show "\<exists>s. store ! a = Loaded s \<and> store' ! a = Loaded (set_time_column s)" by blast
  qed
  show "\<forall>a < length store. a \<notin> set dfs \<longrightarrow> store' ! a = store ! a"
    using old by simp
  show "length store \<le> s_dfa r \<and> s_dfa r < length store'"
    using lay(5) by (simp add: dfa)
  show "length store \<le> s_df_top_cu r \<and> s_df_top_cu r < length store'"
    using lay(5) by (simp add: tb)
  have snds: "map snd (s_referrer_dfs r) = [?n + 1 ..< ?n + 1 + ?k]"
    unfolding rd by (rule map_snd_zip[OF lz])
  show "\<forall>a \<in> snd ` set (s_referrer_dfs r). length store \<le> a \<and> a < length store'"
  proof
    fix a assume "a \<in> snd ` set (s_referrer_dfs r)"
    then have "a \<in> set (map snd (s_referrer_dfs r))" by simp
    then have "a \<in> set [?n + 1 ..< ?n + 1 + ?k]" by (simp only: snds)
    then have "?n + 1 \<le> a \<and> a < ?n + 1 + ?k"
      by (simp only: set_upt atLeastLessThan_iff)
    then show "length store \<le> a \<and> a < length store'" using lay(5) lenP by arith
  qed
  have m1: "?n \<notin> set [?n + 1 ..< ?n + 1 + ?k]"
    by (simp only: set_upt atLeastLessThan_iff) arith
  have m2: "?n + 1 + ?k \<notin> set [?n + 1 ..< ?n + 1 + ?k]"
    by (simp only: set_upt atLeastLessThan_iff) arith
  have m3: "?n \<noteq> ?n + 1 + ?k" by arith
  have d: "distinct [?n + 1 ..< ?n + 1 + ?k]" by (rule distinct_upt)
  show "distinct (s_dfa r # map snd (s_referrer_dfs r) @ [s_df_top_cu r])"
    unfolding snds dfa tb using m1 m2 m3 d
    by (simp only: distinct.simps distinct_append set_append set_simps Un_iff insert_iff
        empty_iff Int_insert_right Int_empty_right) auto
qed


lemma aggregate_in_store_ok:
  assumes valid: "list_all (\<lambda>a. a < length store) dfs"
    and l0: "loaded_at store dfs = Inr snaps0"
    and out: "aggregate_referrers h snaps0 = Inr out"
  shows "\<exists>res. aggregate_in_store h store dfs = Inr res"
proof -
  from out obtain names dfa rdfs m where
    names: "collect_referrers snaps0 = Inr names"
    and v: "pd_concat_snapshots (map set_time_column snaps0) = Inr dfa"
    and rdfs: "build_referrer_dfs dfa (set_iteration h names) = Inr rdfs"
    and m: "build_ref_max_cu_map (rcolumns dfa) rdfs = Inr m"
    and t: "build_df_top_cu rdfs \<lparr>tindex = [], tcolumns = []\<rparr>
        (take top_n (map fst (sorted_reverse snd m))) = Inr (df_top_cu out)"
    by (rule aggregate_referrers_Inr)
  note l1 = loaded_at_after[OF valid l0]
  show ?thesis
    by (simp add: aggregate_in_store_def Let_def l0 names l1 v rdfs m t alloc_def alloc_all_eq)
qed

subsection \<open>The claims about the aggregate\<close>

text \<open>
  C1. Whenever there is at least one fragment, the aggregate exists, and in the row
  of the aggregate for time \<open>t\<close> the cell of every column is the maximum of the
  numbers that the fragments hold for that column in rows whose time is exactly
  \<open>t\<close> (no number at all gives an empty cell). A time that only one row of well
  formed fragments carries keeps that row unchanged. The two fragments of the
  example aggregate to 10 for Dec 1, 73 for Dec 7 and 25 for Dec 10.
\<close>

theorem reconciled_value_is_maximum:
  "(dfs \<noteq> [] \<longrightarrow>
      (\<exists>agg. reconcile dfs = Inr agg \<and>
         (\<forall>(t, m) \<in> set (rows agg). \<forall>c \<in> set (columns agg).
            m c = (if values_at dfs t c = {} then None else Some (Max (values_at dfs t c)))) \<and>
         (\<forall>r. list_all wf_frame dfs \<and> group_rows (fst r) (concat (map rows dfs)) = [r]
              \<longrightarrow> r \<in> set (rows agg)))) \<and>
   reconcile [fragment1, fragment2] =
     Inr \<lparr>columns = [''clones_total''],
          rows = [(20201201, [''clones_total'' \<mapsto> 10]),
                  (20201207, [''clones_total'' \<mapsto> 73]),
                  (20201210, [''clones_total'' \<mapsto> 25])]\<rparr>"
proof (intro conjI impI)
  assume ne: "dfs \<noteq> []"
  then obtain agg where agg: "reconcile dfs = Inr agg"
    using reconcile_Inr by blast
  have "\<forall>(t, m) \<in> set (rows agg). \<forall>c \<in> set (columns agg).
            m c = (if values_at dfs t c = {} then None else Some (Max (values_at dfs t c)))"
  proof (intro ballI, clarify)
    fix t m c
    assume "(t, m) \<in> set (rows agg)" and "c \<in> set (columns agg)"
    then show "m c = (if values_at dfs t c = {} then None else Some (Max (values_at dfs t c)))"
      using reconcile_cell[OF agg, of t m c] by simp
  qed
  moreover have "\<forall>r. list_all wf_frame dfs \<and> group_rows (fst r) (concat (map rows dfs)) = [r]
              \<longrightarrow> r \<in> set (rows agg)"
    using reconcile_single_row[OF agg] by blast
  ultimately show "\<exists>agg. reconcile dfs = Inr agg \<and>
         (\<forall>(t, m) \<in> set (rows agg). \<forall>c \<in> set (columns agg).
            m c = (if values_at dfs t c = {} then None else Some (Max (values_at dfs t c)))) \<and>
         (\<forall>r. list_all wf_frame dfs \<and> group_rows (fst r) (concat (map rows dfs)) = [r]
              \<longrightarrow> r \<in> set (rows agg))"
    using agg by blast
next
  show "reconcile [fragment1, fragment2] =
     Inr \<lparr>columns = [''clones_total''],
          rows = [(20201201, [''clones_total'' \<mapsto> 10]),
                  (20201207, [''clones_total'' \<mapsto> 73]),
                  (20201210, [''clones_total'' \<mapsto> 25])]\<rparr>"
    by (simp add: reconcile_def pd_concat_def fragment1_def fragment2_def union_columns_def
        groupby_index_max_def sort_index_def group_rows_def group_max_def fun_eq_iff)
qed

theorem reconciled_value_is_maximum_witness:
  "[fragment1, fragment2] \<noteq> [] \<and>
   list_all wf_frame [fragment1, fragment2] \<and>
   group_rows 20201210 (concat (map rows [fragment1, fragment2]))
     = [(20201210, [''clones_total'' \<mapsto> 25])] \<and>
   values_at [fragment1, fragment2] 20201207 ''clones_total'' = {73, 18} \<and>
   (\<exists>agg. reconcile [fragment1, fragment2] = Inr agg \<and>
      (\<forall>(t, m) \<in> set (rows agg). \<forall>c \<in> set (columns agg).
         m c = (if values_at [fragment1, fragment2] t c = {} then None
                else Some (Max (values_at [fragment1, fragment2] t c)))) \<and>
      (20201210, [''clones_total'' \<mapsto> 25]) \<in> set (rows agg))"
proof -
  have ne: "[fragment1, fragment2] \<noteq> []" by simp
  have wf: "list_all wf_frame [fragment1, fragment2]"
    by (simp add: wf_frame_def fragment1_def fragment2_def)
  have one: "group_rows (fst (20201210::int, [''clones_total'' \<mapsto> (25::int)]))
               (concat (map rows [fragment1, fragment2]))
             = [(20201210, [''clones_total'' \<mapsto> 25])]"
    by (simp add: group_rows_def fragment1_def fragment2_def)
  have vs: "values_at [fragment1, fragment2] 20201207 ''clones_total'' = {73, 18}"
    by (auto simp: values_at_def fragment1_def fragment2_def)
  from reconciled_value_is_maximum[of "[fragment1, fragment2]"] ne
  obtain agg where agg: "reconcile [fragment1, fragment2] = Inr agg"
      "\<forall>(t, m) \<in> set (rows agg). \<forall>c \<in> set (columns agg).
         m c = (if values_at [fragment1, fragment2] t c = {} then None
                else Some (Max (values_at [fragment1, fragment2] t c)))"
      "\<forall>r. list_all wf_frame [fragment1, fragment2] \<and>
           group_rows (fst r) (concat (map rows [fragment1, fragment2])) = [r]
              \<longrightarrow> r \<in> set (rows agg)"
    by blast
  from agg(3) wf one have "(20201210, [''clones_total'' \<mapsto> 25]) \<in> set (rows agg)"
    by blast
  with ne wf one vs agg(1,2) show ?thesis by auto
qed

text \<open>
  C2. Aggregating is idempotent: whenever there is at least one fragment, the
  aggregate exists, and aggregating the aggregate as the only fragment gives the
  aggregate back.
\<close>

theorem reconcile_idempotent:
  assumes "dfs \<noteq> []"
  shows "\<exists>agg. reconcile dfs = Inr agg \<and> reconcile [agg] = Inr agg"
proof -
  obtain agg where agg: "reconcile dfs = Inr agg"
    using reconcile_Inr[OF assms] by blast
  have ts: "map fst (rows agg) = sort (remdups (map fst (concat (map rows dfs))))"
    by (rule reconcile_times[OF agg])
  have srt: "sorted (map fst (rows agg))" and dst: "distinct (map fst (rows agg))"
    by (simp_all add: ts)
  have cols: "union_columns [columns agg] = columns agg"
    by (simp add: union_columns_single reconcile_eq(2)[OF agg] distinct_union_columns)
  have sk: "sort_key fst (rows agg) = rows agg"
    using srt by (simp add: sort_key_id_if_sorted)
  have keys: "sort (remdups (map fst (rows agg))) = map fst (rows agg)"
    using srt dst by (simp add: distinct_remdups_id sort_key_id_if_sorted)
  have dom: "\<forall>r \<in> set (rows agg). dom (snd r) \<subseteq> set (columns agg)"
    using reconcile_wf[OF agg] by (simp add: wf_frame_def list_all_iff)
  have "reconcile [agg] = Inr (groupby_index_max (sort_index
      \<lparr>columns = union_columns [columns agg], rows = rows agg\<rparr>))"
    using reconcile_Inr[of "[agg]"] by simp
  also have "groupby_index_max (sort_index
      \<lparr>columns = union_columns [columns agg], rows = rows agg\<rparr>) =
      \<lparr>columns = columns agg,
       rows = map (\<lambda>t. (t, group_max (columns agg) (group_rows t (rows agg))))
                 (map fst (rows agg))\<rparr>"
    unfolding groupby_index_max_def sort_index_def by (simp add: cols sk keys)
  also have "\<dots> = agg"
    unfolding regroup_distinct[OF dst dom] by simp
  finally have "reconcile [agg] = Inr agg" .
  with agg show ?thesis by blast
qed

theorem reconcile_idempotent_witness:
  "[fragment1, fragment2] \<noteq> [] \<and>
   (\<exists>agg. reconcile [fragment1, fragment2] = Inr agg \<and> reconcile [agg] = Inr agg)"
  using reconcile_idempotent[of "[fragment1, fragment2]"] by simp

text \<open>
  C5. Whenever there is at least one fragment, the aggregate exists, its times
  are strictly increasing (ascending, no time twice), and they are exactly the
  times that occur in a row of some fragment.
\<close>

theorem reconciled_times_strictly_increasing:
  assumes "dfs \<noteq> []"
  shows "\<exists>agg. reconcile dfs = Inr agg \<and>
           sorted_wrt (<) (map fst (rows agg)) \<and>
           set (map fst (rows agg)) = (\<Union>df \<in> set dfs. fst ` set (rows df))"
proof -
  obtain agg where agg: "reconcile dfs = Inr agg"
    using reconcile_Inr[OF assms] by blast
  have "map fst (rows agg) = sort (remdups (map fst (concat (map rows dfs))))"
    by (rule reconcile_times[OF agg])
  then have "sorted_wrt (<) (map fst (rows agg)) \<and>
         set (map fst (rows agg)) = (\<Union>df \<in> set dfs. fst ` set (rows df))"
    by (auto simp: sorted_wrt_less_sort_remdups)
  with agg show ?thesis by blast
qed

theorem reconciled_times_strictly_increasing_witness:
  "[fragment1, fragment2] \<noteq> [] \<and>
   (\<exists>agg. reconcile [fragment1, fragment2] = Inr agg \<and>
           sorted_wrt (<) (map fst (rows agg)) \<and>
           set (map fst (rows agg)) = {20201201, 20201207, 20201210})"
proof -
  have "(\<Union>df \<in> set [fragment1, fragment2]. fst ` set (rows df))
          = {20201201, 20201207, 20201210}"
    by (auto simp: fragment1_def fragment2_def)
  with reconciled_times_strictly_increasing[of "[fragment1, fragment2]"]
  show ?thesis by simp
qed

text \<open>
  C10. The aggregate does not depend on the order of the fragments: for a
  permutation of a non-empty list of fragments both aggregates exist, they have
  the same rows (times and cells) and the same set of columns; they are equal as
  frames when all fragments list their columns in the same order (the column
  order of the aggregate is that of the first fragment).
\<close>

theorem reconcile_order_independent:
  assumes "mset dfs' = mset dfs" and "dfs \<noteq> []"
  shows "\<exists>a b. reconcile dfs = Inr a \<and> reconcile dfs' = Inr b \<and> rows b = rows a \<and>
           set (columns b) = set (columns a) \<and>
           ((\<forall>df \<in> set dfs. columns df = columns (hd dfs)) \<longrightarrow> b = a)"
proof -
  have s: "set dfs = set dfs'" using assms(1) by (metis mset_eq_setD)
  obtain a where a: "reconcile dfs = Inr a" using reconcile_Inr[OF assms(2)] by blast
  obtain b where b: "reconcile dfs' = Inr b" "rows b = rows a" "set (columns b) = set (columns a)"
    using reconcile_cong_set[OF s a] by blast
  have "b = a" if same: "\<forall>df \<in> set dfs. columns df = columns (hd dfs)"
  proof -
    have ne': "dfs' \<noteq> []" using s assms(2) by auto
    define c0 where "c0 = columns (hd dfs)"
    have all: "\<forall>df \<in> set dfs. columns df = c0" using same by (simp only: c0_def)
    then have all': "\<forall>df \<in> set dfs'. columns df = c0" by (simp only: s)
    have "union_columns (map columns dfs) = rev (remdups (rev c0))"
      by (rule union_columns_same) (use all assms(2) in auto)
    moreover have "union_columns (map columns dfs') = rev (remdups (rev c0))"
      by (rule union_columns_same) (use all' ne' in auto)
    ultimately have "columns b = columns a"
      by (simp add: reconcile_eq(2)[OF a] reconcile_eq(2)[OF b(1)])
    then show ?thesis using b(2) by simp
  qed
  then show ?thesis using a b by blast
qed

theorem reconcile_order_independent_witness:
  "mset [fragment2, fragment1] = mset [fragment1, fragment2] \<and>
   [fragment1, fragment2] \<noteq> [] \<and>
   columns fragment2 = columns fragment1 \<and>
   (\<exists>a. reconcile [fragment1, fragment2] = Inr a \<and> reconcile [fragment2, fragment1] = Inr a)"
proof -
  have p: "mset [fragment2, fragment1] = mset [fragment1, fragment2]" by simp
  have ne: "[fragment1, fragment2] \<noteq> []" by simp
  have c: "\<forall>df \<in> set [fragment1, fragment2]. columns df = columns (hd [fragment1, fragment2])"
    by (simp add: fragment1_def fragment2_def)
  from reconcile_order_independent[OF p ne] c
  have "\<exists>a. reconcile [fragment1, fragment2] = Inr a \<and> reconcile [fragment2, fragment1] = Inr a"
    by blast
  moreover have "columns fragment2 = columns fragment1"
    by (simp add: fragment1_def fragment2_def)
  ultimately show ?thesis using p ne by blast
qed

subsection \<open>The claims about loading\<close>

text \<open>
  C6, as the code has it. The column sets that are compared are those of the
  frames after line 161 has renamed \<^verbatim>\<open>referrers\<close> to \<^verbatim>\<open>referrer\<close> (for a
  fragment: the columns besides the index). When every file has at least one
  column and two files of the list differ in their column sets, the run ends at
  the comparison with \<^verbatim>\<open>sys.exit(1)\<close> and produces nothing; for referrer snapshots
  a file name that does not parse can end the run before with \<^verbatim>\<open>ValueError\<close>,
  and when all names parse the run ends with \<^verbatim>\<open>sys.exit(1)\<close>.
\<close>

theorem schema_mismatch_aborts:
  "(list_all (\<lambda>df. columns df \<noteq> []) csvs \<and>
    (\<exists>a \<in> set csvs. \<exists>b \<in> set csvs. set (columns a) \<noteq> set (columns b))
      \<longrightarrow> analyse_view_clones_ts_fragments csvs = Inl (SystemExit 1)) \<and>
   (list_all (\<lambda>f. header f \<noteq> []) files \<and>
    (\<exists>a \<in> set files. \<exists>b \<in> set files.
        set (rename_referrers (header a)) \<noteq> set (rename_referrers (header b)))
      \<longrightarrow> (analyse_referrer_snapshots h files = Inl (SystemExit 1) \<or>
           analyse_referrer_snapshots h files = Inl ValueError) \<and>
          (list_all (\<lambda>f. \<exists>dt. strptime (pprefix_of (path f)) = Inr dt) files
             \<longrightarrow> analyse_referrer_snapshots h files = Inl (SystemExit 1)))"
proof (intro conjI impI)
  assume "list_all (\<lambda>df. columns df \<noteq> []) csvs \<and>
    (\<exists>a \<in> set csvs. \<exists>b \<in> set csvs. set (columns a) \<noteq> set (columns b))"
  then have "load_fragments {} [] csvs = Inl (SystemExit 1)"
    using load_fragments_mismatch by blast
  then show "analyse_view_clones_ts_fragments csvs = Inl (SystemExit 1)"
    by (simp add: analyse_view_clones_ts_fragments_def)
next
  assume a: "list_all (\<lambda>f. header f \<noteq> []) files \<and>
    (\<exists>a \<in> set files. \<exists>b \<in> set files.
        set (rename_referrers (header a)) \<noteq> set (rename_referrers (header b)))"
  then have "load_snapshots {} [] files = Inl (SystemExit 1) \<or>
             load_snapshots {} [] files = Inl ValueError"
    using load_snapshots_mismatch_fails by blast
  then show "analyse_referrer_snapshots h files = Inl (SystemExit 1) \<or>
           analyse_referrer_snapshots h files = Inl ValueError"
    by (auto simp: analyse_referrer_snapshots_def)
next
  assume a: "list_all (\<lambda>f. header f \<noteq> []) files \<and>
    (\<exists>a \<in> set files. \<exists>b \<in> set files.
        set (rename_referrers (header a)) \<noteq> set (rename_referrers (header b)))"
    and b: "list_all (\<lambda>f. \<exists>dt. strptime (pprefix_of (path f)) = Inr dt) files"
  then have "load_snapshots {} [] files = Inl (SystemExit 1)"
    using load_snapshots_mismatch by blast
  then show "analyse_referrer_snapshots h files = Inl (SystemExit 1)"
    by (simp add: analyse_referrer_snapshots_def)
qed

theorem schema_mismatch_aborts_witness:
  "list_all (\<lambda>df. columns df \<noteq> []) [fragment1, fragment_views] \<and>
   set (columns fragment1) \<noteq> set (columns fragment_views) \<and>
   analyse_view_clones_ts_fragments [fragment1, fragment_views] = Inl (SystemExit 1) \<and>
   list_all (\<lambda>f. header f \<noteq> []) [snapshot_file1, snapshot_file_other] \<and>
   set (rename_referrers (header snapshot_file1))
     \<noteq> set (rename_referrers (header snapshot_file_other)) \<and>
   list_all (\<lambda>f. \<exists>dt. strptime (pprefix_of (path f)) = Inr dt)
     [snapshot_file1, snapshot_file_other] \<and>
   analyse_referrer_snapshots (\<lambda>n. 0) [snapshot_file1, snapshot_file_other] = Inl (SystemExit 1)"
proof -
  have 1: "list_all (\<lambda>df. columns df \<noteq> []) [fragment1, fragment_views]"
    by (simp add: fragment1_def fragment_views_def)
  have 2: "set (columns fragment1) \<noteq> set (columns fragment_views)"
    by (simp add: fragment1_def fragment_views_def)
  have 3: "list_all (\<lambda>f. header f \<noteq> []) [snapshot_file1, snapshot_file_other]"
    by (simp add: snapshot_file1_def snapshot_file_other_def)
  have 4: "set (rename_referrers (header snapshot_file1))
     \<noteq> set (rename_referrers (header snapshot_file_other))"
    by code_simp
  have p1: "strptime (pprefix_of (path snapshot_file1)) =
      Inr \<lparr>year = 2020, month = 12, day = 1, hour = 0, minute = 0, second = 0\<rparr>"
    by code_simp
  have p2: "strptime (pprefix_of (path snapshot_file_other)) =
      Inr \<lparr>year = 2020, month = 12, day = 3, hour = 0, minute = 0, second = 0\<rparr>"
    by code_simp
  have 5: "list_all (\<lambda>f. \<exists>dt. strptime (pprefix_of (path f)) = Inr dt)
     [snapshot_file1, snapshot_file_other]"
    using p1 p2 by simp
  have m1: "\<exists>a \<in> set [fragment1, fragment_views]. \<exists>b \<in> set [fragment1, fragment_views].
              set (columns a) \<noteq> set (columns b)"
    using 2 by (intro bexI[of _ fragment1] bexI[of _ fragment_views]) simp_all
  have m2: "\<exists>a \<in> set [snapshot_file1, snapshot_file_other].
            \<exists>b \<in> set [snapshot_file1, snapshot_file_other].
              set (rename_referrers (header a)) \<noteq> set (rename_referrers (header b))"
    using 4 by (intro bexI[of _ snapshot_file1] bexI[of _ snapshot_file_other]) simp_all
  note inst = schema_mismatch_aborts[of "[fragment1, fragment_views]"
      "[snapshot_file1, snapshot_file_other]" "\<lambda>n. 0"]
  have A: "analyse_view_clones_ts_fragments [fragment1, fragment_views] = Inl (SystemExit 1)"
    using inst 1 m1 by blast
  have B: "analyse_referrer_snapshots (\<lambda>n. 0) [snapshot_file1, snapshot_file_other]
             = Inl (SystemExit 1)"
    using inst 3 m2 5 by blast
  from 1 2 3 4 5 A B show ?thesis by blast
qed

text \<open>
  C6 as stated fails: a snapshot file with the column label \<^verbatim>\<open>referrers\<close> and one
  with \<^verbatim>\<open>referrer\<close> have different column sets, and the run completes and ranks
  the referrers.
\<close>

theorem schema_mismatch_counterexample:
  "set (header snapshot_file_old) \<noteq> set (header snapshot_file1) \<and>
   map_sum id top_n_rnames
     (analyse_referrer_snapshots (\<lambda>n. 0) [snapshot_file_old, snapshot_file1])
     = Inr [''A'', ''B'', ''C'', ''D'', ''E'']"
  by code_simp

subsection \<open>The claims about the ranking\<close>

text \<open>
  C3. The referrer analysis completes on snapshots as the traffic API gives
  them. Whenever it completes, \<^verbatim>\<open>top_n_rnames\<close> consists of
  distinct observed referrers, as many as there are but at most 5, in descending
  order of the largest \<^verbatim>\<open>count_unique\<close> among their rows, and no referrer left
  out has a larger maximum than one that is in. For the example snapshots, with
  maxima 50, 40, 30, 20, 10 and 5 for A to F, the analysis completes in every run
  and selects A, B, C, D, E in this order.
\<close>

theorem top_n_selection:
  "(wf_snapshots dfs \<longrightarrow> (\<exists>out. aggregate_referrers h dfs = Inr out)) \<and>
   (aggregate_referrers h dfs = Inr out \<longrightarrow>
      distinct (top_n_rnames out) \<and> set (top_n_rnames out) \<subseteq> observed_names dfs \<and>
      length (top_n_rnames out) = min 5 (card (observed_names dfs)) \<and>
      sorted_wrt (\<lambda>a b. max_count_unique dfs b \<le> max_count_unique dfs a) (top_n_rnames out) \<and>
      (\<forall>a \<in> set (top_n_rnames out). \<forall>b \<in> observed_names dfs - set (top_n_rnames out).
          max_count_unique dfs b \<le> max_count_unique dfs a)) \<and>
   map (max_count_unique [loaded1, loaded2]) [''A'', ''B'', ''C'', ''D'', ''E'', ''F'']
     = [50, 40, 30, 20, 10, 5] \<and>
   (\<exists>out'. aggregate_referrers h' [loaded1, loaded2] = Inr out' \<and>
           top_n_rnames out' = [''A'', ''B'', ''C'', ''D'', ''E''])"
proof (intro conjI impI)
  assume "wf_snapshots dfs"
  then show "\<exists>out. aggregate_referrers h dfs = Inr out"
    by (rule aggregate_referrers_ok)
next
  assume run: "aggregate_referrers h dfs = Inr out"
  from top_n_rnames_facts[OF run]
  show "distinct (top_n_rnames out)" and "set (top_n_rnames out) \<subseteq> observed_names dfs"
    and "length (top_n_rnames out) = min 5 (card (observed_names dfs))"
    and "sorted_wrt (\<lambda>a b. max_count_unique dfs b \<le> max_count_unique dfs a) (top_n_rnames out)"
    and "\<forall>a \<in> set (top_n_rnames out). \<forall>b \<in> observed_names dfs - set (top_n_rnames out).
          max_count_unique dfs b \<le> max_count_unique dfs a"
    by blast+
next
  show mx: "map (max_count_unique [loaded1, loaded2]) [''A'', ''B'', ''C'', ''D'', ''E'', ''F'']
     = [50, 40, 30, 20, 10, 5]"
    unfolding max_count_unique_code by code_simp
  let ?dfs = "[loaded1, loaded2]"
  let ?L = "[''A'', ''B'', ''C'', ''D'', ''E'', ''F'']"
  let ?R = "sorted_reverse (\<lambda>n. Some (max_count_unique ?dfs n))
               (set_iteration h' (map referrer (all_rows ?dfs)))"
  have wf: "wf_snapshots ?dfs" by code_simp
  then obtain out' where run: "aggregate_referrers h' ?dfs = Inr out'"
    using aggregate_referrers_ok by blast
  have names: "observed_names ?dfs = set ?L"
    unfolding observed_names_def by code_simp
  note f = ranking_facts[of ?dfs h']
  have sL: "sorted_wrt (\<lambda>a b. max_count_unique ?dfs b \<le> max_count_unique ?dfs a) ?L"
    using mx by simp
  have dL: "distinct ?L" by simp
  have inj: "inj_on (max_count_unique ?dfs) (set ?R)"
    unfolding f(2) names using mx by (simp add: inj_on_def) 
  have "?R = ?L"
    by (rule descending_unique[OF f(4) sL f(1) dL _ inj]) (simp only: f(2) names)
  then have "top_n_rnames out' = take 5 ?L"
    using aggregate_ranking(2,3)[OF run] by (simp add: top_n_def)
  then have "top_n_rnames out' = [''A'', ''B'', ''C'', ''D'', ''E'']" by simp
  with run show "\<exists>out'. aggregate_referrers h' [loaded1, loaded2] = Inr out' \<and>
           top_n_rnames out' = [''A'', ''B'', ''C'', ''D'', ''E'']"
    by blast
qed

theorem top_n_selection_witness:
  "wf_snapshots [loaded1, loaded2] \<and>
   (\<exists>out. aggregate_referrers order1 [loaded1, loaded2] = Inr out \<and>
      top_n_rnames out = [''A'', ''B'', ''C'', ''D'', ''E''] \<and>
      distinct (top_n_rnames out) \<and> set (top_n_rnames out) \<subseteq> observed_names [loaded1, loaded2] \<and>
      length (top_n_rnames out) = min 5 (card (observed_names [loaded1, loaded2])) \<and>
      sorted_wrt (\<lambda>a b. max_count_unique [loaded1, loaded2] b \<le> max_count_unique [loaded1, loaded2] a)
        (top_n_rnames out) \<and>
      (\<forall>a \<in> set (top_n_rnames out).
         \<forall>b \<in> observed_names [loaded1, loaded2] - set (top_n_rnames out).
          max_count_unique [loaded1, loaded2] b \<le> max_count_unique [loaded1, loaded2] a))"
proof -
  have wf: "wf_snapshots [loaded1, loaded2]" by code_simp
  obtain out where run: "aggregate_referrers order1 [loaded1, loaded2] = Inr out"
    and top: "top_n_rnames out = [''A'', ''B'', ''C'', ''D'', ''E'']"
    using top_n_selection[of _ _ _ order1] by blast
  from top_n_selection[of "[loaded1, loaded2]" order1 out] run
  have "distinct (top_n_rnames out) \<and> set (top_n_rnames out) \<subseteq> observed_names [loaded1, loaded2] \<and>
      length (top_n_rnames out) = min 5 (card (observed_names [loaded1, loaded2])) \<and>
      sorted_wrt (\<lambda>a b. max_count_unique [loaded1, loaded2] b \<le> max_count_unique [loaded1, loaded2] a)
        (top_n_rnames out) \<and>
      (\<forall>a \<in> set (top_n_rnames out).
         \<forall>b \<in> observed_names [loaded1, loaded2] - set (top_n_rnames out).
          max_count_unique [loaded1, loaded2] b \<le> max_count_unique [loaded1, loaded2] a)"
    by blast
  with run top wf show ?thesis by blast
qed

text \<open>
  C4, as the code has it. Whenever the analysis completes, referrers with the
  same maximum stand in the ranking in the order in which the run visits the set
  \<^verbatim>\<open>referrers\<close> (the sort is stable), and \<^verbatim>\<open>top_n_rnames\<close> is the first 5 names of
  the ranking. That order is not fixed by the inputs. When no two referrers have
  the same maximum, every run that completes gives the same ranking and the same
  top referrers.
\<close>

theorem ranking_ties_follow_iteration_order:
  "aggregate_referrers h dfs = Inr out \<longrightarrow>
     (\<forall>k. filter (\<lambda>n. max_count_unique dfs n = k) (map fst (sorted_dict out))
          = filter (\<lambda>n. max_count_unique dfs n = k)
              (set_iteration h (map referrer (all_rows dfs)))) \<and>
     top_n_rnames out = take 5 (map fst (sorted_dict out)) \<and>
     (\<forall>h' out'. inj_on (max_count_unique dfs) (observed_names dfs) \<and>
                aggregate_referrers h' dfs = Inr out'
        \<longrightarrow> map fst (sorted_dict out') = map fst (sorted_dict out) \<and>
            top_n_rnames out' = top_n_rnames out)"
proof (intro impI conjI allI)
  fix k
  assume run: "aggregate_referrers h dfs = Inr out"
  show "filter (\<lambda>n. max_count_unique dfs n = k) (map fst (sorted_dict out))
          = filter (\<lambda>n. max_count_unique dfs n = k)
              (set_iteration h (map referrer (all_rows dfs)))"
    unfolding aggregate_ranking(2)[OF run] by (rule ranking_stable)
next
  assume run: "aggregate_referrers h dfs = Inr out"
  show "top_n_rnames out = take 5 (map fst (sorted_dict out))"
    using aggregate_ranking(3)[OF run] by (simp add: top_n_def)
next
  fix h' out'
  assume run: "aggregate_referrers h dfs = Inr out"
    and a: "inj_on (max_count_unique dfs) (observed_names dfs) \<and>
                aggregate_referrers h' dfs = Inr out'"
  then have run': "aggregate_referrers h' dfs = Inr out'"
    and inj: "inj_on (max_count_unique dfs) (observed_names dfs)" by simp_all
  note f = ranking_facts[of dfs h]
  note f' = ranking_facts[of dfs h']
  have eq: "sorted_reverse (\<lambda>n. Some (max_count_unique dfs n))
               (set_iteration h' (map referrer (all_rows dfs)))
        = sorted_reverse (\<lambda>n. Some (max_count_unique dfs n))
               (set_iteration h (map referrer (all_rows dfs)))"
    by (rule descending_unique[OF f'(4) f(4) f'(1) f(1)]) (simp_all only: f(2) f'(2) inj)
  show "map fst (sorted_dict out') = map fst (sorted_dict out)"
    by (simp only: aggregate_ranking(2)[OF run] aggregate_ranking(2)[OF run'] eq)
  then show "top_n_rnames out' = top_n_rnames out"
    by (simp only: aggregate_ranking(3)[OF run] aggregate_ranking(3)[OF run'])
qed

theorem ranking_ties_follow_iteration_order_witness:
  "\<exists>out. aggregate_referrers order2 [tied] = Inr out \<and>
      set_iteration order2 (map referrer (all_rows [tied]))
        = [''R2'', ''R3'', ''R4'', ''R5'', ''R6'', ''R1''] \<and>
      filter (\<lambda>n. max_count_unique [tied] n = 7) (map fst (sorted_dict out))
        = [''R2'', ''R3'', ''R4'', ''R5'', ''R6'', ''R1''] \<and>
      top_n_rnames out = take 5 (map fst (sorted_dict out)) \<and>
      inj_on (max_count_unique [loaded1, loaded2]) (observed_names [loaded1, loaded2]) \<and>
      (\<exists>o1 o2. aggregate_referrers order1 [loaded1, loaded2] = Inr o1 \<and>
               aggregate_referrers order2 [loaded1, loaded2] = Inr o2 \<and>
               top_n_rnames o2 = top_n_rnames o1)"
proof -
  have wf: "wf_snapshots [tied]" by code_simp
  then obtain out where run: "aggregate_referrers order2 [tied] = Inr out"
    using aggregate_referrers_ok by blast
  have it: "set_iteration order2 (map referrer (all_rows [tied]))
        = [''R2'', ''R3'', ''R4'', ''R5'', ''R6'', ''R1'']"
    by code_simp
  have mx: "map (max_count_unique [tied]) [''R2'', ''R3'', ''R4'', ''R5'', ''R6'', ''R1'']
             = [7, 7, 7, 7, 7, 7]"
    unfolding max_count_unique_code by code_simp
  note t = ranking_ties_follow_iteration_order[of order2 "[tied]" out]
  have "filter (\<lambda>n. max_count_unique [tied] n = 7) (map fst (sorted_dict out))
        = filter (\<lambda>n. max_count_unique [tied] n = 7)
             (set_iteration order2 (map referrer (all_rows [tied])))"
    using t run by blast
  also have "\<dots> = [''R2'', ''R3'', ''R4'', ''R5'', ''R6'', ''R1'']"
    unfolding it using mx by simp
  finally have fl: "filter (\<lambda>n. max_count_unique [tied] n = 7) (map fst (sorted_dict out))
        = [''R2'', ''R3'', ''R4'', ''R5'', ''R6'', ''R1'']" .
  have tk: "top_n_rnames out = take 5 (map fst (sorted_dict out))"
    using t run by blast
  have wf2: "wf_snapshots [loaded1, loaded2]" by code_simp
  obtain o1 where o1: "aggregate_referrers order1 [loaded1, loaded2] = Inr o1"
    using aggregate_referrers_ok[OF wf2] by blast
  obtain o2 where o2: "aggregate_referrers order2 [loaded1, loaded2] = Inr o2"
    using aggregate_referrers_ok[OF wf2] by blast
  have names: "observed_names [loaded1, loaded2] = set [''A'', ''B'', ''C'', ''D'', ''E'', ''F'']"
    unfolding observed_names_def by code_simp
  have mx2: "map (max_count_unique [loaded1, loaded2]) [''A'', ''B'', ''C'', ''D'', ''E'', ''F'']
     = [50, 40, 30, 20, 10, 5]"
    unfolding max_count_unique_code by code_simp
  have inj: "inj_on (max_count_unique [loaded1, loaded2]) (observed_names [loaded1, loaded2])"
    unfolding names using mx2 by (simp add: inj_on_def)
  have "top_n_rnames o2 = top_n_rnames o1"
    using ranking_ties_follow_iteration_order[of order1 "[loaded1, loaded2]" o1] o1 o2 inj
    by blast
  with run it fl tk inj o1 o2 show ?thesis by blast
qed

text \<open>
  C4 as stated fails: with six referrers of equal maximum, two runs over the same
  snapshot that visit the set of names in different orders select different top
  referrers, in different orders.
\<close>

theorem ranking_depends_on_iteration_order:
  "map_sum id top_n_rnames (aggregate_referrers order1 [tied])
     = Inr [''R1'', ''R2'', ''R3'', ''R4'', ''R5''] \<and>
   map_sum id top_n_rnames (aggregate_referrers order2 [tied])
     = Inr [''R2'', ''R3'', ''R4'', ''R5'', ''R6'']"
  by code_simp

subsection \<open>The claim about the table\<close>

text \<open>
  C7. The table of the top referrers is to have a row for every time at which one
  of them was seen, with the cells of missing observations unset. The code does
  not do this on the three snapshots of Dec 1 (A 50, B 5), Dec 2 (B 40) and Dec 3
  (A 45). In every run A and B are the top referrers, B by its maximum of 40 on
  Dec 2, and the table has the rows of Dec 1 and Dec 3 only, the times of A, the
  first referrer, although B was seen on Dec 1 and Dec 2. In the two runs
  evaluated, the column of B holds 5 and an unset cell (unset, not 0, for Dec 3),
  and the observation of Dec 2 is not in the table.
\<close>

theorem top_table_loses_observations:
  "(\<exists>out. aggregate_referrers h [snap_dec1, snap_dec2, snap_dec3] = Inr out \<and>
          top_n_rnames out = [''A'', ''B''] \<and>
          tindex (df_top_cu out) = [20201201000000, 20201203000000]) \<and>
   map_sum id top_n_rnames (aggregate_referrers order1 [snap_dec1, snap_dec2, snap_dec3])
     = Inr [''A'', ''B''] \<and>
   map_sum id top_n_rnames (aggregate_referrers order2 [snap_dec1, snap_dec2, snap_dec3])
     = Inr [''A'', ''B''] \<and>
   observation_times [snap_dec1, snap_dec2, snap_dec3] ''A'' = [20201201000000, 20201203000000] \<and>
   observation_times [snap_dec1, snap_dec2, snap_dec3] ''B'' = [20201201000000, 20201202000000] \<and>
   observed [snap_dec1, snap_dec2, snap_dec3] ''B'' 20201202000000 = {40} \<and>
   map_sum id df_top_cu (aggregate_referrers order1 [snap_dec1, snap_dec2, snap_dec3]) =
     Inr \<lparr>tindex = [20201201000000, 20201203000000],
          tcolumns = [(''A'', [Some 50, Some 45]), (''B'', [Some 5, None])]\<rparr> \<and>
   map_sum id df_top_cu (aggregate_referrers order2 [snap_dec1, snap_dec2, snap_dec3]) =
     Inr \<lparr>tindex = [20201201000000, 20201203000000],
          tcolumns = [(''A'', [Some 50, Some 45]), (''B'', [Some 5, None])]\<rparr>"
proof -
  let ?dfs = "[snap_dec1, snap_dec2, snap_dec3]"
  let ?L = "[''A'', ''B'']"
  let ?R = "sorted_reverse (\<lambda>n. Some (max_count_unique ?dfs n))
               (set_iteration h (map referrer (all_rows ?dfs)))"
  have every_run: "\<exists>out. aggregate_referrers h ?dfs = Inr out \<and>
          top_n_rnames out = [''A'', ''B''] \<and>
          tindex (df_top_cu out) = [20201201000000, 20201203000000]"
  proof -
    have wf: "wf_snapshots ?dfs" by code_simp
    then obtain out where run: "aggregate_referrers h ?dfs = Inr out"
      using aggregate_referrers_ok by blast
    have mx: "map (max_count_unique ?dfs) ?L = [50, 40]"
      unfolding max_count_unique_code by code_simp
    have names: "observed_names ?dfs = set ?L"
      unfolding observed_names_def by code_simp
    note f = ranking_facts[of ?dfs h]
    have sL: "sorted_wrt (\<lambda>a b. max_count_unique ?dfs b \<le> max_count_unique ?dfs a) ?L"
      using mx by simp
    have dL: "distinct ?L" by simp
    have inj: "inj_on (max_count_unique ?dfs) (set ?R)"
      unfolding f(2) names using mx by (simp add: inj_on_def)
    have "?R = ?L"
      by (rule descending_unique[OF f(4) sL f(1) dL _ inj]) (simp only: f(2) names)
    then have top: "top_n_rnames out = ''A'' # [''B'']"
      using aggregate_ranking(2,3)[OF run] by (simp add: top_n_def)
    have "observation_times ?dfs ''A'' = [20201201000000, 20201203000000]" by code_simp
    then have "tindex (df_top_cu out) = [20201201000000, 20201203000000]"
      using aggregate_table(1)[OF run top] by simp
    with run top show ?thesis by simp
  qed
  have "observed [snap_dec1, snap_dec2, snap_dec3] ''B'' 20201202000000 = {40}"
    by (auto simp: observed_def snap_dec1_def snap_dec2_def snap_dec3_def mk_row_def)
  moreover note every_run
  moreover have
    "map_sum id top_n_rnames (aggregate_referrers order1 [snap_dec1, snap_dec2, snap_dec3])
       = Inr [''A'', ''B'']"
    "map_sum id top_n_rnames (aggregate_referrers order2 [snap_dec1, snap_dec2, snap_dec3])
       = Inr [''A'', ''B'']"
    "observation_times [snap_dec1, snap_dec2, snap_dec3] ''A'' = [20201201000000, 20201203000000]"
    "observation_times [snap_dec1, snap_dec2, snap_dec3] ''B'' = [20201201000000, 20201202000000]"
    "map_sum id df_top_cu (aggregate_referrers order1 [snap_dec1, snap_dec2, snap_dec3]) =
       Inr \<lparr>tindex = [20201201000000, 20201203000000],
            tcolumns = [(''A'', [Some 50, Some 45]), (''B'', [Some 5, None])]\<rparr>"
    "map_sum id df_top_cu (aggregate_referrers order2 [snap_dec1, snap_dec2, snap_dec3]) =
       Inr \<lparr>tindex = [20201201000000, 20201203000000],
            tcolumns = [(''A'', [Some 50, Some 45]), (''B'', [Some 5, None])]\<rparr>"
    by code_simp+
  ultimately show ?thesis by (intro conjI)
qed

subsection \<open>The claim about the inputs\<close>

text \<open>
  C9, as the code has it, with the data frames in a store. The views/clones
  aggregation completes whenever there is a fragment; it changes no object that
  existed before, so the loaded fragments stay as they were, and \<^verbatim>\<open>dfa\<close> and
  \<^verbatim>\<open>df_agg\<close> are two new objects, \<^verbatim>\<open>df_agg\<close> holding the aggregate. The referrer
  analysis completes whenever it does on the values of the snapshots; it replaces
  each loaded snapshot in place by the snapshot with the column \<^verbatim>\<open>time\<close> (lines
  185 and 186) and changes no other object that existed before; \<^verbatim>\<open>dfa\<close>, the
  per-referrer frames and \<^verbatim>\<open>df_top_cu\<close> are new objects, different from one
  another, and they hold the values of the analysis.
\<close>

theorem store_effects_of_analysis:
  "(fdfs \<noteq> [] \<longrightarrow> (\<exists>res. reconcile_in_store fstore fdfs = Inr res)) \<and>
   (reconcile_in_store fstore fdfs = Inr (fstore', dfa, agg) \<longrightarrow>
      (\<forall>a < length fstore. fstore' ! a = fstore ! a) \<and>
      length fstore \<le> dfa \<and> dfa < agg \<and> agg < length fstore' \<and>
      reconcile (map ((!) fstore) fdfs) = Inr (fstore' ! agg)) \<and>
   (list_all (\<lambda>a. a < length store) dfs \<and> loaded_at store dfs = Inr snaps \<and>
    aggregate_referrers h snaps = Inr res
      \<longrightarrow> (\<exists>res'. aggregate_in_store h store dfs = Inr res')) \<and>
   (list_all (\<lambda>a. a < length store) dfs \<and> aggregate_in_store h store dfs = Inr (store', r) \<longrightarrow>
      (\<exists>snaps0 out. loaded_at store dfs = Inr snaps0 \<and>
            aggregate_referrers h snaps0 = Inr out \<and>
            loaded_at store' dfs = Inr (ref_dfs out) \<and>
            s_top_n_rnames r = top_n_rnames out \<and>
            store' ! s_df_top_cu r = TopTable (df_top_cu out) \<and>
            map fst (s_referrer_dfs r) = map fst (referrer_dfs out) \<and>
            map (\<lambda>(rname, a). store' ! a) (s_referrer_dfs r)
              = map (\<lambda>(rname, df). PerReferrer df) (referrer_dfs out) \<and>
            (\<exists>v. pd_concat_snapshots (ref_dfs out) = Inr v \<and>
                 store' ! s_dfa r = Concatenated v)) \<and>
      (\<forall>a \<in> set dfs. \<exists>s. store ! a = Loaded s \<and> store' ! a = Loaded (set_time_column s)) \<and>
      (\<forall>a < length store. a \<notin> set dfs \<longrightarrow> store' ! a = store ! a) \<and>
      (length store \<le> s_dfa r \<and> s_dfa r < length store') \<and>
      (length store \<le> s_df_top_cu r \<and> s_df_top_cu r < length store') \<and>
      (\<forall>a \<in> snd ` set (s_referrer_dfs r). length store \<le> a \<and> a < length store') \<and>
      distinct (s_dfa r # map snd (s_referrer_dfs r) @ [s_df_top_cu r]))"
proof (intro conjI impI)
  assume "fdfs \<noteq> []"
  then show "\<exists>res. reconcile_in_store fstore fdfs = Inr res"
    by (rule reconcile_in_store_ok)
next
  assume run: "reconcile_in_store fstore fdfs = Inr (fstore', dfa, agg)"
  note f = reconcile_in_store_Inr[OF run]
  show "\<forall>a < length fstore. fstore' ! a = fstore ! a" by (rule f(1))
  show "length fstore \<le> dfa" by (simp add: f(2))
  show "dfa < agg" by (simp add: f(2,3))
  show "agg < length fstore'" by (simp add: f(3,4))
  show "reconcile (map ((!) fstore) fdfs) = Inr (fstore' ! agg)" by (rule f(5))
next
  assume "list_all (\<lambda>a. a < length store) dfs \<and> loaded_at store dfs = Inr snaps \<and>
    aggregate_referrers h snaps = Inr res"
  then show "\<exists>res'. aggregate_in_store h store dfs = Inr res'"
    using aggregate_in_store_ok by blast
next
  assume a: "list_all (\<lambda>a. a < length store) dfs \<and>
             aggregate_in_store h store dfs = Inr (store', r)"
  then have valid: "list_all (\<lambda>a. a < length store) dfs"
    and run: "aggregate_in_store h store dfs = Inr (store', r)" by simp_all
  note e = aggregate_in_store_effects[OF valid run]
  show "\<exists>snaps0 out. loaded_at store dfs = Inr snaps0 \<and>
            aggregate_referrers h snaps0 = Inr out \<and>
            loaded_at store' dfs = Inr (ref_dfs out) \<and>
            s_top_n_rnames r = top_n_rnames out \<and>
            store' ! s_df_top_cu r = TopTable (df_top_cu out) \<and>
            map fst (s_referrer_dfs r) = map fst (referrer_dfs out) \<and>
            map (\<lambda>(rname, a). store' ! a) (s_referrer_dfs r)
              = map (\<lambda>(rname, df). PerReferrer df) (referrer_dfs out) \<and>
            (\<exists>v. pd_concat_snapshots (ref_dfs out) = Inr v \<and>
                 store' ! s_dfa r = Concatenated v)"
    by (rule e(1))
  show "\<forall>a \<in> set dfs. \<exists>s. store ! a = Loaded s \<and> store' ! a = Loaded (set_time_column s)"
    by (rule e(2))
  show "\<forall>a < length store. a \<notin> set dfs \<longrightarrow> store' ! a = store ! a" by (rule e(3))
  show "length store \<le> s_dfa r" using e(4) by simp
  show "s_dfa r < length store'" using e(4) by simp
  show "length store \<le> s_df_top_cu r" using e(5) by simp
  show "s_df_top_cu r < length store'" using e(5) by simp
  show "\<forall>a \<in> snd ` set (s_referrer_dfs r). length store \<le> a \<and> a < length store'"
    by (rule e(6))
  show "distinct (s_dfa r # map snd (s_referrer_dfs r) @ [s_df_top_cu r])" by (rule e(7))
qed

theorem store_effects_of_analysis_witness:
  "[0, 1 :: addr] \<noteq> [] \<and>
   (\<exists>fstore' dfa agg.
      reconcile_in_store [fragment1, fragment2] [0, 1] = Inr (fstore', dfa, agg) \<and>
      fstore' ! 0 = fragment1 \<and> fstore' ! 1 = fragment2 \<and>
      2 \<le> dfa \<and> dfa < agg \<and> agg < length fstore' \<and>
      reconcile [fragment1, fragment2] = Inr (fstore' ! agg)) \<and>
   list_all (\<lambda>a. a < length [Loaded snap_a, Loaded snap_b, Loaded loaded1]) [0, 1] \<and>
   loaded_at [Loaded snap_a, Loaded snap_b, Loaded loaded1] [0, 1] = Inr [snap_a, snap_b] \<and>
   (\<exists>store' r.
      aggregate_in_store order1 [Loaded snap_a, Loaded snap_b, Loaded loaded1] [0, 1]
        = Inr (store', r) \<and>
      store' ! 0 = Loaded (set_time_column snap_a) \<and>
      store' ! 1 = Loaded (set_time_column snap_b) \<and>
      store' ! 2 = Loaded loaded1 \<and>
      r = \<lparr>s_dfa = 3, s_referrer_dfs = [(''A'', 4), (''B'', 5)],
           s_top_n_rnames = [''A'', ''B''], s_df_top_cu = 6\<rparr> \<and>
      store' ! 6 = TopTable \<lparr>tindex = [20201201000000],
                             tcolumns = [(''A'', [Some 50]), (''B'', [None])]\<rparr>)"
proof -
  let ?fs = "[fragment1, fragment2]"
  let ?st = "[Loaded snap_a, Loaded snap_b, Loaded loaded1]"
  have ne: "[0, 1 :: addr] \<noteq> []" by simp
  from store_effects_of_analysis[of "[0, 1]" ?fs] ne
  obtain res where "reconcile_in_store ?fs [0, 1] = Inr res" by blast
  then obtain fstore' dfa agg where
    frun: "reconcile_in_store ?fs [0, 1] = Inr (fstore', dfa, agg)"
    by (cases res) auto
  from store_effects_of_analysis[of "[0, 1]" ?fs fstore' dfa agg] frun
  have f: "\<forall>a < length ?fs. fstore' ! a = ?fs ! a"
      "length ?fs \<le> dfa" "dfa < agg" "agg < length fstore'"
      "reconcile (map ((!) ?fs) [0, 1]) = Inr (fstore' ! agg)"
    by blast+
  have f0: "fstore' ! 0 = fragment1" and f1: "fstore' ! 1 = fragment2"
    using f(1) by simp_all
  have F: "\<exists>fstore' dfa agg.
      reconcile_in_store ?fs [0, 1] = Inr (fstore', dfa, agg) \<and>
      fstore' ! 0 = fragment1 \<and> fstore' ! 1 = fragment2 \<and>
      2 \<le> dfa \<and> dfa < agg \<and> agg < length fstore' \<and>
      reconcile ?fs = Inr (fstore' ! agg)"
    using frun f0 f1 f(2,3,4,5) by (intro exI[of _ fstore'] exI[of _ dfa] exI[of _ agg]) simp
  have valid: "list_all (\<lambda>a. a < length ?st) [0, 1]" by simp
  have l0: "loaded_at ?st [0, 1] = Inr [snap_a, snap_b]" by simp
  have wf: "wf_snapshots [snap_a, snap_b]" by code_simp
  then obtain out where out: "aggregate_referrers order1 [snap_a, snap_b] = Inr out"
    using aggregate_referrers_ok by blast
  from store_effects_of_analysis[of _ _ _ _ _ ?st "[0, 1]" "[snap_a, snap_b]" order1 out]
    valid l0 out
  obtain res' where "aggregate_in_store order1 ?st [0, 1] = Inr res'" by blast
  then obtain store' r where run: "aggregate_in_store order1 ?st [0, 1] = Inr (store', r)"
    by (cases res') auto
  have rv: "map_sum id snd (aggregate_in_store order1 ?st [0, 1]) =
      Inr \<lparr>s_dfa = 3, s_referrer_dfs = [(''A'', 4), (''B'', 5)],
           s_top_n_rnames = [''A'', ''B''], s_df_top_cu = 6\<rparr>"
    by code_simp
  from rv[unfolded run]
  have r: "r = \<lparr>s_dfa = 3, s_referrer_dfs = [(''A'', 4), (''B'', 5)],
           s_top_n_rnames = [''A'', ''B''], s_df_top_cu = 6\<rparr>"
    by simp
  have tv: "map_sum id df_top_cu (aggregate_referrers order1 [snap_a, snap_b]) =
     Inr \<lparr>tindex = [20201201000000],
          tcolumns = [(''A'', [Some 50]), (''B'', [None])]\<rparr>"
    by code_simp
  from store_effects_of_analysis[of _ _ _ _ _ ?st "[0, 1]" _ order1 _ store' r] valid run
  have e1: "\<exists>snaps0 out. loaded_at ?st [0, 1] = Inr snaps0 \<and>
            aggregate_referrers order1 snaps0 = Inr out \<and>
            loaded_at store' [0, 1] = Inr (ref_dfs out) \<and>
            s_top_n_rnames r = top_n_rnames out \<and>
            store' ! s_df_top_cu r = TopTable (df_top_cu out) \<and>
            map fst (s_referrer_dfs r) = map fst (referrer_dfs out) \<and>
            map (\<lambda>(rname, a). store' ! a) (s_referrer_dfs r)
              = map (\<lambda>(rname, df). PerReferrer df) (referrer_dfs out) \<and>
            (\<exists>v. pd_concat_snapshots (ref_dfs out) = Inr v \<and>
                 store' ! s_dfa r = Concatenated v)"
    and e2: "\<forall>a \<in> set [0, 1]. \<exists>s. ?st ! a = Loaded s \<and> store' ! a = Loaded (set_time_column s)"
    and e3: "\<forall>a < length ?st. a \<notin> set [0, 1] \<longrightarrow> store' ! a = ?st ! a"
    by blast+
  from e1 l0 out have t6: "store' ! s_df_top_cu r = TopTable (df_top_cu out)" by auto
  have s0: "store' ! 0 = Loaded (set_time_column snap_a)"
    and s1: "store' ! 1 = Loaded (set_time_column snap_b)"
    using e2 by simp_all
  have s2: "store' ! 2 = Loaded loaded1" using e3 by simp
  have s6: "store' ! 6 = TopTable \<lparr>tindex = [20201201000000],
                             tcolumns = [(''A'', [Some 50]), (''B'', [None])]\<rparr>"
    using t6 tv out by (simp add: r)
  have A: "\<exists>store' r.
      aggregate_in_store order1 ?st [0, 1] = Inr (store', r) \<and>
      store' ! 0 = Loaded (set_time_column snap_a) \<and>
      store' ! 1 = Loaded (set_time_column snap_b) \<and>
      store' ! 2 = Loaded loaded1 \<and>
      r = \<lparr>s_dfa = 3, s_referrer_dfs = [(''A'', 4), (''B'', 5)],
           s_top_n_rnames = [''A'', ''B''], s_df_top_cu = 6\<rparr> \<and>
      store' ! 6 = TopTable \<lparr>tindex = [20201201000000],
                             tcolumns = [(''A'', [Some 50]), (''B'', [None])]\<rparr>"
    using run s0 s1 s2 r s6 by (intro exI[of _ store'] exI[of _ r] conjI)
  show ?thesis using ne F valid l0 A by (intro conjI)
qed

text \<open>
  C9 as stated fails: after the referrer analysis the loaded snapshots are not
  what they were; each has the new column and the time in its rows.
\<close>

theorem aggregator_changes_snapshots:
  "map_sum id ref_dfs (aggregate_referrers order1 [snap_a, snap_b]) =
     Inr [\<lparr>rcolumns = [''referrer'', ''count'', ''count_unique'', ''time''],
           rrows = [\<lparr>referrer = ''A'', count = 80, count_unique = 50,
                     time = Some 20201201000000\<rparr>],
           snapshot_time = 20201201000000\<rparr>,
          \<lparr>rcolumns = [''referrer'', ''count'', ''count_unique'', ''time''],
           rrows = [\<lparr>referrer = ''B'', count = 66, count_unique = 40,
                     time = Some 20201202000000\<rparr>],
           snapshot_time = 20201202000000\<rparr>] \<and>
   map_sum id ref_dfs (aggregate_referrers order1 [snap_a, snap_b]) \<noteq> Inr [snap_a, snap_b]"
  by code_simp

subsection \<open>The claim about file names\<close>

text \<open>
  C8, as the code has it. A file whose name \<^verbatim>\<open>strptime\<close> rejects makes the run
  fail; it fails with \<^verbatim>\<open>ValueError\<close> at that file when the files before it load.
  When the run completes, every snapshot carries the time parsed from the name of
  its file, read as UTC, and lines 185 and 186 put that time into every row. A
  name in the format \<^verbatim>\<open>YYYY-MM-DD_HHMMSS\<close> that spells a date and time of the
  calendar is accepted with the fields it spells.
\<close>

theorem snapshot_time_from_file_name:
  "(f \<in> set files \<and> strptime (pprefix_of (path f)) = Inl e
      \<longrightarrow> (\<exists>e'. analyse_referrer_snapshots h files = Inl e')) \<and>
   (load_snapshots {} [] ps = Inr dfs' \<and> strptime (pprefix_of (path f)) = Inl e
      \<longrightarrow> analyse_referrer_snapshots h (ps @ f # qs) = Inl ValueError) \<and>
   (analyse_referrer_snapshots h files = Inr out
      \<longrightarrow> list_all2 (\<lambda>f df. \<exists>dt. strptime (pprefix_of (path f)) = Inr dt \<and>
                          snapshot_time df = utc_localize dt \<and>
                          length (rrows df) = length (body f) \<and>
                          list_all (\<lambda>r. time r = Some (utc_localize dt)) (rrows df))
            files (ref_dfs out)) \<and>
   (name_in_spec_format (path f) \<and> valid_datetime (token_fields (take 17 (basename (path f))))
      \<longrightarrow> strptime (pprefix_of (path f)) = Inr (token_fields (take 17 (basename (path f)))))"
proof (intro conjI impI)
  assume "f \<in> set files \<and> strptime (pprefix_of (path f)) = Inl e"
  then obtain e' where "load_snapshots {} [] files = Inl e'"
    using load_snapshots_bad_name by blast
  then show "\<exists>e'. analyse_referrer_snapshots h files = Inl e'"
    by (simp add: analyse_referrer_snapshots_def)
next
  assume "load_snapshots {} [] ps = Inr dfs' \<and> strptime (pprefix_of (path f)) = Inl e"
  then have "load_snapshots {} [] (ps @ f # qs) = Inl ValueError"
    using load_snapshots_first_bad_name by blast
  then show "analyse_referrer_snapshots h (ps @ f # qs) = Inl ValueError"
    by (simp add: analyse_referrer_snapshots_def)
next
  assume run: "analyse_referrer_snapshots h files = Inr out"
  then obtain dfs where l: "load_snapshots {} [] files = Inr dfs"
    and a: "aggregate_referrers h dfs = Inr out"
    by (auto simp: analyse_referrer_snapshots_def split: sum.splits)
  from load_snapshots_Inr[OF l] have lf: "list_all2 loaded_from files dfs" by simp
  have r: "ref_dfs out = map set_time_column dfs"
    using a by (rule aggregate_referrers_Inr)
  have "list_all2 (\<lambda>f df. \<exists>dt. strptime (pprefix_of (path f)) = Inr dt \<and>
                          snapshot_time df = utc_localize dt \<and>
                          length (rrows df) = length (body f) \<and>
                          list_all (\<lambda>r. time r = Some (utc_localize dt)) (rrows df))
            files (map set_time_column dfs)"
    unfolding list_all2_map2
    by (rule list_all2_mono[OF lf])
       (auto simp: loaded_from_def set_time_column_def list_all_iff)
  then show "list_all2 (\<lambda>f df. \<exists>dt. strptime (pprefix_of (path f)) = Inr dt \<and>
                          snapshot_time df = utc_localize dt \<and>
                          length (rrows df) = length (body f) \<and>
                          list_all (\<lambda>r. time r = Some (utc_localize dt)) (rrows df))
            files (ref_dfs out)"
    by (simp only: r)
next
  assume "name_in_spec_format (path f) \<and>
          valid_datetime (token_fields (take 17 (basename (path f))))"
  then show "strptime (pprefix_of (path f)) = Inr (token_fields (take 17 (basename (path f))))"
    using strptime_spec_format by blast
qed

theorem snapshot_time_from_file_name_witness:
  "load_snapshots {} [] [snapshot_file1] = Inr [loaded1] \<and>
   strptime (pprefix_of (path snapshot_file_bad)) = Inl ValueError \<and>
   analyse_referrer_snapshots order1 ([snapshot_file1] @ snapshot_file_bad # [snapshot_file2])
     = Inl ValueError \<and>
   name_in_spec_format (path snapshot_file2) \<and>
   token_fields (take 17 (basename (path snapshot_file2)))
     = \<lparr>year = 2020, month = 12, day = 2, hour = 0, minute = 0, second = 0\<rparr> \<and>
   valid_datetime (token_fields (take 17 (basename (path snapshot_file2)))) \<and>
   strptime (pprefix_of (path snapshot_file2))
     = Inr \<lparr>year = 2020, month = 12, day = 2, hour = 0, minute = 0, second = 0\<rparr> \<and>
   (\<exists>out. analyse_referrer_snapshots order1 [snapshot_file1, snapshot_file2] = Inr out \<and>
      map snapshot_time (ref_dfs out) = [20201201000000, 20201202000000] \<and>
      list_all2 (\<lambda>f df. \<exists>dt. strptime (pprefix_of (path f)) = Inr dt \<and>
                          snapshot_time df = utc_localize dt \<and>
                          length (rrows df) = length (body f) \<and>
                          list_all (\<lambda>r. time r = Some (utc_localize dt)) (rrows df))
            [snapshot_file1, snapshot_file2] (ref_dfs out))"
proof -
  have l1: "load_snapshots {} [] [snapshot_file1] = Inr [loaded1]" by code_simp
  have bad: "strptime (pprefix_of (path snapshot_file_bad)) = Inl ValueError" by code_simp
  note t1 = snapshot_time_from_file_name[of snapshot_file_bad _ ValueError order1
      "[snapshot_file1]" "[loaded1]" "[snapshot_file2]"]
  have A: "analyse_referrer_snapshots order1 ([snapshot_file1] @ snapshot_file_bad # [snapshot_file2])
     = Inl ValueError"
    using t1 l1 bad by blast
  have sf: "name_in_spec_format (path snapshot_file2)" by code_simp
  have tf: "token_fields (take 17 (basename (path snapshot_file2)))
     = \<lparr>year = 2020, month = 12, day = 2, hour = 0, minute = 0, second = 0\<rparr>"
    by code_simp
  have vd: "valid_datetime (token_fields (take 17 (basename (path snapshot_file2))))"
    by code_simp
  have B: "strptime (pprefix_of (path snapshot_file2))
     = Inr \<lparr>year = 2020, month = 12, day = 2, hour = 0, minute = 0, second = 0\<rparr>"
    using snapshot_time_from_file_name[of snapshot_file2] sf vd unfolding tf by blast
  have l2: "load_snapshots {} [] [snapshot_file1, snapshot_file2] = Inr [loaded1, loaded2]"
    by code_simp
  have "wf_snapshots [loaded1, loaded2]" by code_simp
  then obtain out where a: "aggregate_referrers order1 [loaded1, loaded2] = Inr out"
    using aggregate_referrers_ok by blast
  then have run: "analyse_referrer_snapshots order1 [snapshot_file1, snapshot_file2] = Inr out"
    unfolding analyse_referrer_snapshots_def l2 by simp
  have "ref_dfs out = map set_time_column [loaded1, loaded2]"
    using a by (rule aggregate_referrers_Inr)
  then have ts: "map snapshot_time (ref_dfs out) = [20201201000000, 20201202000000]"
    by (simp add: set_time_column_def loaded1_def loaded2_def)
  from snapshot_time_from_file_name[of _ "[snapshot_file1, snapshot_file2]" _ order1 _ _ _ out] run
  have C: "list_all2 (\<lambda>f df. \<exists>dt. strptime (pprefix_of (path f)) = Inr dt \<and>
                          snapshot_time df = utc_localize dt \<and>
                          length (rrows df) = length (body f) \<and>
                          list_all (\<lambda>r. time r = Some (utc_localize dt)) (rrows df))
            [snapshot_file1, snapshot_file2] (ref_dfs out)"
    by blast
  have E: "\<exists>out. analyse_referrer_snapshots order1 [snapshot_file1, snapshot_file2] = Inr out \<and>
      map snapshot_time (ref_dfs out) = [20201201000000, 20201202000000] \<and>
      list_all2 (\<lambda>f df. \<exists>dt. strptime (pprefix_of (path f)) = Inr dt \<and>
                          snapshot_time df = utc_localize dt \<and>
                          length (rrows df) = length (body f) \<and>
                          list_all (\<lambda>r. time r = Some (utc_localize dt)) (rrows df))
            [snapshot_file1, snapshot_file2] (ref_dfs out)"
    using run ts C by (intro exI[of _ out] conjI)
  show ?thesis using l1 bad A sf tf vd B E by (intro conjI)
qed

text \<open>
  C8 as stated fails: the name \<^verbatim>\<open>2020-1-01_000000_top_referrers_snapshot.csv\<close> is
  not in the format \<^verbatim>\<open>YYYY-MM-DD_HHMMSS\<close>, its month has one digit, and the file
  loads, with the snapshot time 2020-01-01 00:00:00.
\<close>

theorem lenient_file_name_accepted:
  "\<not> name_in_spec_format (path snapshot_file_short) \<and>
   map_sum id (\<lambda>out. map snapshot_time (ref_dfs out))
     (analyse_referrer_snapshots order1 [snapshot_file_short]) = Inr [20200101000000]"
  by code_simp

end
